theory Spec2Isabelle
  imports Main "HOL-Library.Finite_Map"
begin

section \<open>The store\<close>

text \<open>
  The linked geo structure of \<^verbatim>\<open>linkedGeo.c\<close> is a three-level pointer structure
  (polygon, loop, coordinate) that the functions build, count and free in place. The
  embedding keeps an explicit store: a pointer is an address or \<^verbatim>\<open>NULL\<close>, and the
  store maps the address of every live object to its value. Allocation adds an address to
  the store, \<^verbatim>\<open>free\<close> removes it, and reading or writing through \<^verbatim>\<open>NULL\<close> or through an
  address that is not live (undefined behaviour in C) is the error \<open>InvalidPointer\<close>.
  A failed \<^verbatim>\<open>assert\<close> is the error \<open>AssertionFailed\<close>, and incrementing an \<^verbatim>\<open>int\<close>
  beyond \<^verbatim>\<open>INT_MAX\<close> (undefined behaviour in C) is the error \<open>IntOverflow\<close>.
\<close>

type_synonym addr = nat

type_synonym ptr = "addr option"

datatype error = AssertionFailed | InvalidPointer | IntOverflow

text \<open>
  Modelled from the spec: the struct declarations of \<^verbatim>\<open>linkedGeo.h\<close> are not part of the
  source file. The fields are the ones \<^verbatim>\<open>linkedGeo.c\<close> uses (\<^verbatim>\<open>vertex\<close>, \<^verbatim>\<open>next\<close>,
  \<^verbatim>\<open>first\<close>, \<^verbatim>\<open>last\<close>); the three \<^verbatim>\<open>next\<close>, and the two \<^verbatim>\<open>first\<close> and \<^verbatim>\<open>last\<close>, carry
  the name of their struct as a prefix. The point type \<^verbatim>\<open>GeoCoord\<close> is only ever copied,
  so it is the type parameter \<open>'v\<close>.
\<close>

record 'v LinkedGeoCoord =
  vertex :: 'v
  coord_next :: ptr

record LinkedGeoLoop =
  loop_first :: ptr
  loop_last :: ptr
  loop_next :: ptr

record LinkedGeoPolygon =
  poly_first :: ptr
  poly_last :: ptr
  poly_next :: ptr

record 'v heap =
  coords :: "(addr, 'v LinkedGeoCoord) fmap"
  loops :: "(addr, LinkedGeoLoop) fmap"
  polys :: "(addr, LinkedGeoPolygon) fmap"

text \<open>\<open>load m p\<close> is the read \<^verbatim>\<open>*p\<close> of an object of the kind stored in \<open>m\<close>.\<close>

definition load :: "(addr, 'a) fmap \<Rightarrow> ptr \<Rightarrow> error + 'a" where
  "load m p =
     (case p of
        None \<Rightarrow> Inl InvalidPointer
      | Some a \<Rightarrow> (case fmlookup m a of None \<Rightarrow> Inl InvalidPointer | Some x \<Rightarrow> Inr x))"

text \<open>
  \<open>upd_coord p f h\<close> is a write to a field of the coordinate node \<^verbatim>\<open>*p\<close>: \<open>f\<close> changes
  the field in the object that is at \<open>p\<close> at the moment of the write. The same for loops
  and polygons.
\<close>

definition upd_coord ::
  "ptr \<Rightarrow> ('v LinkedGeoCoord \<Rightarrow> 'v LinkedGeoCoord) \<Rightarrow> 'v heap \<Rightarrow> error + 'v heap" where
  "upd_coord p f h =
     (case load (coords h) p of
        Inl e \<Rightarrow> Inl e
      | Inr x \<Rightarrow> Inr (h\<lparr>coords := fmupd (the p) (f x) (coords h)\<rparr>))"

definition upd_loop ::
  "ptr \<Rightarrow> (LinkedGeoLoop \<Rightarrow> LinkedGeoLoop) \<Rightarrow> 'v heap \<Rightarrow> error + 'v heap" where
  "upd_loop p f h =
     (case load (loops h) p of
        Inl e \<Rightarrow> Inl e
      | Inr x \<Rightarrow> Inr (h\<lparr>loops := fmupd (the p) (f x) (loops h)\<rparr>))"

definition upd_poly ::
  "ptr \<Rightarrow> (LinkedGeoPolygon \<Rightarrow> LinkedGeoPolygon) \<Rightarrow> 'v heap \<Rightarrow> error + 'v heap" where
  "upd_poly p f h =
     (case load (polys h) p of
        Inl e \<Rightarrow> Inl e
      | Inr x \<Rightarrow> Inr (h\<lparr>polys := fmupd (the p) (f x) (polys h)\<rparr>))"

text \<open>
  \<^verbatim>\<open>free(p)\<close>: nothing for \<^verbatim>\<open>NULL\<close>, the object leaves the store when it is live, and
  freeing an address that is not live is an error.
\<close>

definition free_coord :: "ptr \<Rightarrow> 'v heap \<Rightarrow> error + 'v heap" where
  "free_coord p h =
     (case p of
        None \<Rightarrow> Inr h
      | Some a \<Rightarrow>
          (case fmlookup (coords h) a of
             None \<Rightarrow> Inl InvalidPointer
           | Some x \<Rightarrow> Inr (h\<lparr>coords := fmdrop a (coords h)\<rparr>)))"

definition free_loop :: "ptr \<Rightarrow> 'v heap \<Rightarrow> error + 'v heap" where
  "free_loop p h =
     (case p of
        None \<Rightarrow> Inr h
      | Some a \<Rightarrow>
          (case fmlookup (loops h) a of
             None \<Rightarrow> Inl InvalidPointer
           | Some x \<Rightarrow> Inr (h\<lparr>loops := fmdrop a (loops h)\<rparr>)))"

definition free_poly :: "ptr \<Rightarrow> 'v heap \<Rightarrow> error + 'v heap" where
  "free_poly p h =
     (case p of
        None \<Rightarrow> Inr h
      | Some a \<Rightarrow>
          (case fmlookup (polys h) a of
             None \<Rightarrow> Inl InvalidPointer
           | Some x \<Rightarrow> Inr (h\<lparr>polys := fmdrop a (polys h)\<rparr>)))"

text \<open>
  \<^verbatim>\<open>calloc(1, sizeof(T))\<close> and \<^verbatim>\<open>malloc(sizeof(T))\<close>: the allocator's answer is an argument
  of every function that allocates, \<open>None\<close> when the allocator has no memory left. The
  contract of the allocator, that the block it returns is no live object, is a hypothesis
  of the theorems. A block from \<^verbatim>\<open>calloc\<close> is all zero: every pointer in it is \<^verbatim>\<open>NULL\<close>.
\<close>

definition zero_loop :: LinkedGeoLoop where
  "zero_loop = \<lparr>loop_first = None, loop_last = None, loop_next = None\<rparr>"

definition zero_polygon :: LinkedGeoPolygon where
  "zero_polygon = \<lparr>poly_first = None, poly_last = None, poly_next = None\<rparr>"

definition calloc_loop :: "ptr \<Rightarrow> 'v heap \<Rightarrow> 'v heap" where
  "calloc_loop r h =
     (case r of None \<Rightarrow> h | Some n \<Rightarrow> h\<lparr>loops := fmupd n zero_loop (loops h)\<rparr>)"

definition calloc_polygon :: "ptr \<Rightarrow> 'v heap \<Rightarrow> 'v heap" where
  "calloc_polygon r h =
     (case r of None \<Rightarrow> h | Some n \<Rightarrow> h\<lparr>polys := fmupd n zero_polygon (polys h)\<rparr>)"

section \<open>The functions of linkedGeo.c\<close>

text \<open>\<^verbatim>\<open>addNewLinkedPolygon(polygon)\<close>; \<open>r\<close> is the answer of \<^verbatim>\<open>calloc\<close>.\<close>

definition addNewLinkedPolygon :: "'v heap \<Rightarrow> ptr \<Rightarrow> ptr \<Rightarrow> error + ('v heap \<times> ptr)" where
  "addNewLinkedPolygon h r polygon =
     (case load (polys h) polygon of
        Inl e \<Rightarrow> Inl e
      | Inr pg \<Rightarrow>
          if poly_next pg \<noteq> None then Inl AssertionFailed
          else if r = None then Inl AssertionFailed
          else (case upd_poly polygon (\<lambda>x. x\<lparr>poly_next := r\<rparr>) (calloc_polygon r h) of
                  Inl e \<Rightarrow> Inl e
                | Inr h' \<Rightarrow> Inr (h', r)))"

text \<open>\<^verbatim>\<open>addLinkedLoop(polygon, loop)\<close>.\<close>

definition addLinkedLoop :: "'v heap \<Rightarrow> ptr \<Rightarrow> ptr \<Rightarrow> error + ('v heap \<times> ptr)" where
  "addLinkedLoop h polygon loop =
     (case load (polys h) polygon of
        Inl e \<Rightarrow> Inl e
      | Inr pg \<Rightarrow>
          (case (if poly_last pg = None
                 then (if poly_first pg \<noteq> None then Inl AssertionFailed
                       else upd_poly polygon (\<lambda>x. x\<lparr>poly_first := loop\<rparr>) h)
                 else upd_loop (poly_last pg) (\<lambda>x. x\<lparr>loop_next := loop\<rparr>) h) of
             Inl e \<Rightarrow> Inl e
           | Inr h1 \<Rightarrow>
               (case upd_poly polygon (\<lambda>x. x\<lparr>poly_last := loop\<rparr>) h1 of
                  Inl e \<Rightarrow> Inl e
                | Inr h2 \<Rightarrow> Inr (h2, loop))))"

text \<open>\<^verbatim>\<open>addNewLinkedLoop(polygon)\<close>; \<open>r\<close> is the answer of \<^verbatim>\<open>calloc\<close>.\<close>

definition addNewLinkedLoop :: "'v heap \<Rightarrow> ptr \<Rightarrow> ptr \<Rightarrow> error + ('v heap \<times> ptr)" where
  "addNewLinkedLoop h r polygon =
     (if r = None then Inl AssertionFailed
      else addLinkedLoop (calloc_loop r h) polygon r)"

text \<open>
  \<^verbatim>\<open>addLinkedCoord(loop, vertex)\<close>; \<open>r\<close> is the answer of \<^verbatim>\<open>malloc\<close> and \<open>v\<close> the point
  \<^verbatim>\<open>*vertex\<close>. The compound literal initialises the whole node.
\<close>

definition addLinkedCoord :: "'v heap \<Rightarrow> ptr \<Rightarrow> ptr \<Rightarrow> 'v \<Rightarrow> error + ('v heap \<times> ptr)" where
  "addLinkedCoord h r loop v =
     (case r of
        None \<Rightarrow> Inl AssertionFailed
      | Some n \<Rightarrow>
          let h0 = h\<lparr>coords := fmupd n \<lparr>vertex = v, coord_next = None\<rparr> (coords h)\<rparr> in
          (case load (loops h0) loop of
             Inl e \<Rightarrow> Inl e
           | Inr lp \<Rightarrow>
               (case (if loop_last lp = None
                      then (if loop_first lp \<noteq> None then Inl AssertionFailed
                            else upd_loop loop (\<lambda>x. x\<lparr>loop_first := r\<rparr>) h0)
                      else upd_coord (loop_last lp) (\<lambda>x. x\<lparr>coord_next := r\<rparr>) h0) of
                  Inl e \<Rightarrow> Inl e
                | Inr h1 \<Rightarrow>
                    (case upd_loop loop (\<lambda>x. x\<lparr>loop_last := r\<rparr>) h1 of
                       Inl e \<Rightarrow> Inl e
                     | Inr h2 \<Rightarrow> Inr (h2, r)))))"

text \<open>
  \<^verbatim>\<open>destroyLinkedGeoLoop(loop)\<close>. The \<^verbatim>\<open>for\<close> loop is the recursive function
  \<open>destroyLinkedGeoLoop_for\<close> on the loop variable \<^verbatim>\<open>currentCoord\<close>: it reads
  \<^verbatim>\<open>currentCoord->next\<close> into \<^verbatim>\<open>nextCoord\<close>, frees the node and goes on from
  \<^verbatim>\<open>nextCoord\<close>. Every pass frees a live node, so the number of live nodes is a measure.
\<close>

function destroyLinkedGeoLoop_for :: "'v heap \<Rightarrow> ptr \<Rightarrow> error + 'v heap" where
  "destroyLinkedGeoLoop_for h currentCoord =
     (if currentCoord = None then Inr h
      else (case load (coords h) currentCoord of
              Inl e \<Rightarrow> Inl e
            | Inr c \<Rightarrow>
                (case free_coord currentCoord h of
                   Inl e \<Rightarrow> Inl e
                 | Inr h' \<Rightarrow> destroyLinkedGeoLoop_for h' (coord_next c))))"
  by pat_completeness auto
termination
proof (relation "measure (\<lambda>(h, p). fcard (fmdom (coords h)))")
  show "wf (measure (\<lambda>(h :: 'v heap, p :: ptr). fcard (fmdom (coords h))))"
    by simp
next
  fix h h' :: "'v heap" and currentCoord :: ptr and c :: "'v LinkedGeoCoord"
  assume nn: "currentCoord \<noteq> None" and fr: "free_coord currentCoord h = Inr h'"
  from nn obtain a where a: "currentCoord = Some a"
    by auto
  from fr a have "a |\<in>| fmdom (coords h)"
    by (cases "fmlookup (coords h) a") (simp_all add: free_coord_def fmlookup_dom_iff)
  moreover from fr a have "coords h' = fmdrop a (coords h)"
    by (cases "fmlookup (coords h) a") (auto simp: free_coord_def)
  ultimately have "fcard (fmdom (coords h')) < fcard (fmdom (coords h))"
    by (simp add: fcard_fminus1_less del: fcard_fminus_finsert)
  then show "((h', coord_next c), (h, currentCoord)) \<in> measure (\<lambda>(h, p). fcard (fmdom (coords h)))"
    by simp
qed

declare destroyLinkedGeoLoop_for.simps [simp del]

definition destroyLinkedGeoLoop :: "'v heap \<Rightarrow> ptr \<Rightarrow> error + 'v heap" where
  "destroyLinkedGeoLoop h loop =
     (case load (loops h) loop of
        Inl e \<Rightarrow> Inl e
      | Inr lp \<Rightarrow> destroyLinkedGeoLoop_for h (loop_first lp))"

text \<open>
  \<^verbatim>\<open>destroyLinkedPolygon(polygon)\<close>. The inner \<^verbatim>\<open>for\<close> loop, on \<^verbatim>\<open>currentLoop\<close>, is
  \<open>destroyLinkedPolygon_loops\<close>: it destroys the coordinates of the loop, then reads
  \<^verbatim>\<open>currentLoop->next\<close>, then frees the loop. The outer \<^verbatim>\<open>for\<close> loop, on
  \<^verbatim>\<open>currentPolygon\<close> and the flag \<^verbatim>\<open>skip\<close>, is \<open>destroyLinkedPolygon_for\<close>.
\<close>

function destroyLinkedPolygon_loops :: "'v heap \<Rightarrow> ptr \<Rightarrow> error + 'v heap" where
  "destroyLinkedPolygon_loops h currentLoop =
     (if currentLoop = None then Inr h
      else (case destroyLinkedGeoLoop h currentLoop of
              Inl e \<Rightarrow> Inl e
            | Inr h1 \<Rightarrow>
                (case load (loops h1) currentLoop of
                   Inl e \<Rightarrow> Inl e
                 | Inr lp \<Rightarrow>
                     (case free_loop currentLoop h1 of
                        Inl e \<Rightarrow> Inl e
                      | Inr h2 \<Rightarrow> destroyLinkedPolygon_loops h2 (loop_next lp)))))"
  by pat_completeness auto
termination
proof (relation "measure (\<lambda>(h, p). fcard (fmdom (loops h)))")
  show "wf (measure (\<lambda>(h :: 'v heap, p :: ptr). fcard (fmdom (loops h))))"
    by simp
next
  fix h h1 h2 :: "'v heap" and currentLoop :: ptr and lp :: LinkedGeoLoop
  assume nn: "currentLoop \<noteq> None" and d: "destroyLinkedGeoLoop h currentLoop = Inr h1"
    and fr: "free_loop currentLoop h1 = Inr h2"
  have keep: "loops k' = loops k"
    if "destroyLinkedGeoLoop_for k p = Inr k'" for k k' :: "'v heap" and p
    using that
  proof (induction k p rule: destroyLinkedGeoLoop_for.induct)
    case (1 k p)
    show ?case
    proof (cases "p = None")
      case True
      with "1.prems" show ?thesis
        by (subst (asm) destroyLinkedGeoLoop_for.simps) simp
    next
      case False
      with "1.prems" obtain c k1 where c: "load (coords k) p = Inr c"
        and k1: "free_coord p k = Inr k1"
        and r: "destroyLinkedGeoLoop_for k1 (coord_next c) = Inr k'"
        by (subst (asm) destroyLinkedGeoLoop_for.simps) (auto split: sum.splits)
      from k1 have "loops k1 = loops k"
        by (auto simp: free_coord_def split: option.splits)
      with "1.IH" [OF False c k1 r] show ?thesis by simp
    qed
  qed
  from d obtain lp0 :: LinkedGeoLoop where "destroyLinkedGeoLoop_for h (loop_first lp0) = Inr h1"
    by (auto simp: destroyLinkedGeoLoop_def split: sum.splits)
  then have "loops h1 = loops h"
    by (rule keep)
  moreover from nn obtain a where a: "currentLoop = Some a"
    by auto
  moreover from fr a have "a |\<in>| fmdom (loops h1)"
    by (cases "fmlookup (loops h1) a") (simp_all add: free_loop_def fmlookup_dom_iff)
  moreover from fr a have "loops h2 = fmdrop a (loops h1)"
    by (cases "fmlookup (loops h1) a") (auto simp: free_loop_def)
  ultimately have "fcard (fmdom (loops h2)) < fcard (fmdom (loops h))"
    by (simp add: fcard_fminus1_less del: fcard_fminus_finsert)
  then show "((h2, loop_next lp), (h, currentLoop)) \<in> measure (\<lambda>(h, p). fcard (fmdom (loops h)))"
    by simp
qed

declare destroyLinkedPolygon_loops.simps [simp del]

function destroyLinkedPolygon_for :: "'v heap \<Rightarrow> ptr \<Rightarrow> bool \<Rightarrow> error + 'v heap" where
  "destroyLinkedPolygon_for h currentPolygon skip =
     (if currentPolygon = None then Inr h
      else (case load (polys h) currentPolygon of
              Inl e \<Rightarrow> Inl e
            | Inr pg \<Rightarrow>
                (case destroyLinkedPolygon_loops h (poly_first pg) of
                   Inl e \<Rightarrow> Inl e
                 | Inr h1 \<Rightarrow>
                     (case load (polys h1) currentPolygon of
                        Inl e \<Rightarrow> Inl e
                      | Inr pg1 \<Rightarrow>
                          if skip then destroyLinkedPolygon_for h1 (poly_next pg1) False
                          else (case free_poly currentPolygon h1 of
                                  Inl e \<Rightarrow> Inl e
                                | Inr h2 \<Rightarrow>
                                    destroyLinkedPolygon_for h2 (poly_next pg1) False)))))"
  by pat_completeness auto
termination
proof -
  have keep_coords: "polys k' = polys k"
    if "destroyLinkedGeoLoop_for k p = Inr k'" for k k' :: "'v heap" and p
    using that
  proof (induction k p rule: destroyLinkedGeoLoop_for.induct)
    case (1 k p)
    show ?case
    proof (cases "p = None")
      case True
      with "1.prems" show ?thesis
        by (subst (asm) destroyLinkedGeoLoop_for.simps) simp
    next
      case False
      with "1.prems" obtain c k1 where c: "load (coords k) p = Inr c"
        and k1: "free_coord p k = Inr k1"
        and r: "destroyLinkedGeoLoop_for k1 (coord_next c) = Inr k'"
        by (subst (asm) destroyLinkedGeoLoop_for.simps) (auto split: sum.splits)
      from k1 have "polys k1 = polys k"
        by (auto simp: free_coord_def split: option.splits)
      with "1.IH" [OF False c k1 r] show ?thesis by simp
    qed
  qed
  have keep_loops: "polys k' = polys k"
    if "destroyLinkedPolygon_loops k p = Inr k'" for k k' :: "'v heap" and p
    using that
  proof (induction k p rule: destroyLinkedPolygon_loops.induct)
    case (1 k p)
    show ?case
    proof (cases "p = None")
      case True
      with "1.prems" show ?thesis
        by (subst (asm) destroyLinkedPolygon_loops.simps) simp
    next
      case False
      with "1.prems" obtain k1 lp k2 where k1: "destroyLinkedGeoLoop k p = Inr k1"
        and lp: "load (loops k1) p = Inr lp"
        and k2: "free_loop p k1 = Inr k2"
        and r: "destroyLinkedPolygon_loops k2 (loop_next lp) = Inr k'"
        by (subst (asm) destroyLinkedPolygon_loops.simps) (auto split: sum.splits)
      from k1 obtain lp0 :: LinkedGeoLoop
        where "destroyLinkedGeoLoop_for k (loop_first lp0) = Inr k1"
        by (auto simp: destroyLinkedGeoLoop_def split: sum.splits)
      then have "polys k1 = polys k"
        by (rule keep_coords)
      moreover from k2 have "polys k2 = polys k1"
        by (auto simp: free_loop_def split: option.splits)
      ultimately show ?thesis
        using "1.IH" [OF False k1 lp k2 r] by simp
    qed
  qed
  show ?thesis
  proof (relation "measure (\<lambda>(h, p, skip). 2 * fcard (fmdom (polys h)) + (if skip then 1 else 0))")
    show "wf (measure (\<lambda>(h :: 'v heap, p :: ptr, skip :: bool).
      2 * fcard (fmdom (polys h)) + (if skip then 1 else 0)))"
      by simp
  next
    fix h h1 :: "'v heap" and currentPolygon :: ptr and pg pg1 :: LinkedGeoPolygon
      and skip :: bool
    assume "destroyLinkedPolygon_loops h (poly_first pg) = Inr h1" and "skip"
    then show "((h1, poly_next pg1, False), (h, currentPolygon, skip))
      \<in> measure (\<lambda>(h, p, skip). 2 * fcard (fmdom (polys h)) + (if skip then 1 else 0))"
      by (simp add: keep_loops)
  next
    fix h h1 h2 :: "'v heap" and currentPolygon :: ptr and pg pg1 :: LinkedGeoPolygon
      and skip :: bool
    assume nn: "currentPolygon \<noteq> None"
      and d: "destroyLinkedPolygon_loops h (poly_first pg) = Inr h1"
      and fr: "free_poly currentPolygon h1 = Inr h2"
    from d have "polys h1 = polys h"
      by (rule keep_loops)
    moreover from nn obtain a where a: "currentPolygon = Some a"
      by auto
    moreover from fr a have "a |\<in>| fmdom (polys h1)"
      by (cases "fmlookup (polys h1) a") (simp_all add: free_poly_def fmlookup_dom_iff)
    moreover from fr a have "polys h2 = fmdrop a (polys h1)"
      by (cases "fmlookup (polys h1) a") (auto simp: free_poly_def)
    ultimately have "fcard (fmdom (polys h2)) < fcard (fmdom (polys h))"
      by (simp add: fcard_fminus1_less del: fcard_fminus_finsert)
    then show "((h2, poly_next pg1, False), (h, currentPolygon, skip))
      \<in> measure (\<lambda>(h, p, skip). 2 * fcard (fmdom (polys h)) + (if skip then 1 else 0))"
      by simp
  qed
qed

declare destroyLinkedPolygon_for.simps [simp del]

definition destroyLinkedPolygon :: "'v heap \<Rightarrow> ptr \<Rightarrow> error + 'v heap" where
  "destroyLinkedPolygon h polygon = destroyLinkedPolygon_for h polygon True"

text \<open>
  The three count functions. \<^verbatim>\<open>count\<close> is a C \<^verbatim>\<open>int\<close>, 32 bits wide on the platforms of
  the library: the model counts in \<open>int\<close> and \<^verbatim>\<open>count++\<close> at \<^verbatim>\<open>INT_MAX\<close> is the error
  \<open>IntOverflow\<close>. The bound makes every \<^verbatim>\<open>while\<close> loop a total function, also on a
  chain that runs into itself.
\<close>

definition INT_MAX :: int where
  "INT_MAX = 2147483647"

function countLinkedPolygons_while :: "'v heap \<Rightarrow> ptr \<Rightarrow> int \<Rightarrow> error + int" where
  "countLinkedPolygons_while h polygon count =
     (if polygon = None then Inr count
      else if INT_MAX \<le> count then Inl IntOverflow
      else (case load (polys h) polygon of
              Inl e \<Rightarrow> Inl e
            | Inr pg \<Rightarrow> countLinkedPolygons_while h (poly_next pg) (count + 1)))"
  by pat_completeness auto
termination
  by (relation "measure (\<lambda>(h, p, c). nat (INT_MAX - c))") auto

declare countLinkedPolygons_while.simps [simp del]

definition countLinkedPolygons :: "'v heap \<Rightarrow> ptr \<Rightarrow> error + int" where
  "countLinkedPolygons h polygon = countLinkedPolygons_while h polygon 0"

function countLinkedLoops_while :: "'v heap \<Rightarrow> ptr \<Rightarrow> int \<Rightarrow> error + int" where
  "countLinkedLoops_while h loop count =
     (if loop = None then Inr count
      else if INT_MAX \<le> count then Inl IntOverflow
      else (case load (loops h) loop of
              Inl e \<Rightarrow> Inl e
            | Inr lp \<Rightarrow> countLinkedLoops_while h (loop_next lp) (count + 1)))"
  by pat_completeness auto
termination
  by (relation "measure (\<lambda>(h, p, c). nat (INT_MAX - c))") auto

declare countLinkedLoops_while.simps [simp del]

definition countLinkedLoops :: "'v heap \<Rightarrow> ptr \<Rightarrow> error + int" where
  "countLinkedLoops h polygon =
     (case load (polys h) polygon of
        Inl e \<Rightarrow> Inl e
      | Inr pg \<Rightarrow> countLinkedLoops_while h (poly_first pg) 0)"

function countLinkedCoords_while :: "'v heap \<Rightarrow> ptr \<Rightarrow> int \<Rightarrow> error + int" where
  "countLinkedCoords_while h coord count =
     (if coord = None then Inr count
      else if INT_MAX \<le> count then Inl IntOverflow
      else (case load (coords h) coord of
              Inl e \<Rightarrow> Inl e
            | Inr c \<Rightarrow> countLinkedCoords_while h (coord_next c) (count + 1)))"
  by pat_completeness auto
termination
  by (relation "measure (\<lambda>(h, p, c). nat (INT_MAX - c))") auto

declare countLinkedCoords_while.simps [simp del]

definition countLinkedCoords :: "'v heap \<Rightarrow> ptr \<Rightarrow> error + int" where
  "countLinkedCoords h loop =
     (case load (loops h) loop of
        Inl e \<Rightarrow> Inl e
      | Inr lp \<Rightarrow> countLinkedCoords_while h (loop_first lp) 0)"

section \<open>Chains and call sequences\<close>

text \<open>
  \<open>next_chain nx p as\<close>: following \<^verbatim>\<open>next\<close> from the pointer \<open>p\<close> visits exactly the addresses
  \<open>as\<close>, in this order, and then reaches \<^verbatim>\<open>NULL\<close>. \<open>nx a\<close> is the \<^verbatim>\<open>next\<close> field of the
  live object at \<open>a\<close>, and \<open>None\<close> when no object is live there. This is the forward
  traversal \<^verbatim>\<open>for (x = p; x != NULL; x = x->next)\<close> of a reader of the structure.
\<close>

fun next_chain :: "(addr \<Rightarrow> ptr option) \<Rightarrow> ptr \<Rightarrow> addr list \<Rightarrow> bool" where
  "next_chain nx p [] = (p = None)"
| "next_chain nx p (a # as) =
     (p = Some a \<and> (case nx a of None \<Rightarrow> False | Some q \<Rightarrow> next_chain nx q as))"

definition coord_chain :: "'v heap \<Rightarrow> ptr \<Rightarrow> addr list \<Rightarrow> bool" where
  "coord_chain h = next_chain (\<lambda>a. map_option coord_next (fmlookup (coords h) a))"

definition loop_chain :: "'v heap \<Rightarrow> ptr \<Rightarrow> addr list \<Rightarrow> bool" where
  "loop_chain h = next_chain (\<lambda>a. map_option loop_next (fmlookup (loops h) a))"

definition polygon_chain :: "'v heap \<Rightarrow> ptr \<Rightarrow> addr list \<Rightarrow> bool" where
  "polygon_chain h = next_chain (\<lambda>a. map_option poly_next (fmlookup (polys h) a))"

text \<open>The points of the coordinate nodes at the addresses \<open>as\<close>.\<close>

definition vertices :: "'v heap \<Rightarrow> addr list \<Rightarrow> 'v option list" where
  "vertices h as = map (\<lambda>a. map_option vertex (fmlookup (coords h) a)) as"

text \<open>
  A pointer field is valid when it is \<^verbatim>\<open>NULL\<close> or the address of a live object: it does
  not dangle.
\<close>

definition valid_ptr :: "(addr, 'a) fmap \<Rightarrow> ptr \<Rightarrow> bool" where
  "valid_ptr m p = (case p of None \<Rightarrow> True | Some a \<Rightarrow> fmlookup m a \<noteq> None)"

text \<open>
  A sequence of \<^verbatim>\<open>addLinkedCoord\<close> calls on one loop: one call for each pair of an
  answer of \<^verbatim>\<open>malloc\<close> and a point, in the order of the list.
\<close>

fun addLinkedCoord_calls :: "'v heap \<Rightarrow> ptr \<Rightarrow> (ptr \<times> 'v) list \<Rightarrow> error + 'v heap" where
  "addLinkedCoord_calls h loop [] = Inr h"
| "addLinkedCoord_calls h loop ((r, v) # rvs) =
     (case addLinkedCoord h r loop v of
        Inl e \<Rightarrow> Inl e
      | Inr (h', c) \<Rightarrow> addLinkedCoord_calls h' loop rvs)"

text \<open>
  A sequence of \<^verbatim>\<open>addNewLinkedPolygon\<close> calls, each on the polygon that the call before
  it returned: one call for each answer of \<^verbatim>\<open>calloc\<close>. The result is the store and the
  polygon that the last call returned.
\<close>

fun addNewLinkedPolygon_calls :: "'v heap \<Rightarrow> ptr \<Rightarrow> ptr list \<Rightarrow> error + ('v heap \<times> ptr)" where
  "addNewLinkedPolygon_calls h polygon [] = Inr (h, polygon)"
| "addNewLinkedPolygon_calls h polygon (r # rs) =
     (case addNewLinkedPolygon h r polygon of
        Inl e \<Rightarrow> Inl e
      | Inr (h', p') \<Rightarrow> addNewLinkedPolygon_calls h' p' rs)"

text \<open>
  A fully built structure. The shape of a loop is its address and the addresses of its
  coordinate nodes; the shape of a polygon is its address and the shapes of its loops.
  \<open>polygon_struct h p ps\<close>: the polygon chain from \<open>p\<close> is \<open>ps\<close>, polygon by polygon with
  its loop chain, loop by loop with its coordinate chain. \<open>linked_geo h p ps\<close> adds that
  the chains share no node: no loop and no coordinate node stands in two places.
\<close>

type_synonym loop_shape = "addr \<times> addr list"

type_synonym polygon_shape = "addr \<times> loop_shape list"

fun loop_struct :: "'v heap \<Rightarrow> ptr \<Rightarrow> loop_shape list \<Rightarrow> bool" where
  "loop_struct h p [] = (p = None)"
| "loop_struct h p ((a, cs) # ls) =
     (p = Some a \<and>
      (case fmlookup (loops h) a of
         None \<Rightarrow> False
       | Some lp \<Rightarrow> coord_chain h (loop_first lp) cs \<and> loop_struct h (loop_next lp) ls))"

fun polygon_struct :: "'v heap \<Rightarrow> ptr \<Rightarrow> polygon_shape list \<Rightarrow> bool" where
  "polygon_struct h p [] = (p = None)"
| "polygon_struct h p ((a, ls) # ps) =
     (p = Some a \<and>
      (case fmlookup (polys h) a of
         None \<Rightarrow> False
       | Some pg \<Rightarrow> loop_struct h (poly_first pg) ls \<and> polygon_struct h (poly_next pg) ps))"

definition loop_coords :: "loop_shape list \<Rightarrow> addr list" where
  "loop_coords ls = concat (map snd ls)"

definition all_polygons :: "polygon_shape list \<Rightarrow> addr list" where
  "all_polygons ps = map fst ps"

definition all_loops :: "polygon_shape list \<Rightarrow> addr list" where
  "all_loops ps = concat (map (\<lambda>(a, ls). map fst ls) ps)"

definition all_coords :: "polygon_shape list \<Rightarrow> addr list" where
  "all_coords ps = concat (map (\<lambda>(a, ls). loop_coords ls) ps)"

definition linked_geo :: "'v heap \<Rightarrow> ptr \<Rightarrow> polygon_shape list \<Rightarrow> bool" where
  "linked_geo h p ps =
     (polygon_struct h p ps \<and> distinct (all_loops ps) \<and> distinct (all_coords ps))"

text \<open>
  A store for the examples: an empty polygon 30, a polygon 31 with the loops 10 and 11,
  a polygon 32 and a loop 12 that break the emptiness invariant (\<^verbatim>\<open>first\<close> set, \<^verbatim>\<open>last\<close>
  unset), a polygon 35 as \<^verbatim>\<open>addLinkedLoop\<close> leaves an empty polygon to which loop 10 was
  attached (\<^verbatim>\<open>first\<close> and \<^verbatim>\<open>last\<close> are loop 10), and the coordinate nodes 20 and 21 of
  loop 10.
\<close>

definition example_store :: "(int \<times> int) heap" where
  "example_store =
     \<lparr>coords = fmupd 20 \<lparr>vertex = (0, 0), coord_next = Some 21\<rparr>
               (fmupd 21 \<lparr>vertex = (1, 0), coord_next = None\<rparr> fmempty),
      loops = fmupd 10 \<lparr>loop_first = Some 20, loop_last = Some 21, loop_next = Some 11\<rparr>
               (fmupd 11 \<lparr>loop_first = None, loop_last = None, loop_next = None\<rparr>
               (fmupd 12 \<lparr>loop_first = Some 20, loop_last = None, loop_next = None\<rparr> fmempty)),
      polys = fmupd 30 \<lparr>poly_first = None, poly_last = None, poly_next = None\<rparr>
               (fmupd 31 \<lparr>poly_first = Some 10, poly_last = Some 11, poly_next = None\<rparr>
               (fmupd 32 \<lparr>poly_first = Some 10, poly_last = None, poly_next = None\<rparr>
               (fmupd 35 \<lparr>poly_first = Some 10, poly_last = Some 10, poly_next = None\<rparr>
                  fmempty)))\<rparr>"

text \<open>
  The store of the concrete scenario of the specification: polygon 40 with the loop 10 of
  the points (0,0), (1,0), (1,1) (nodes 20, 21, 22), followed by polygon 41 with the loop
  11 of the point (5,5) (node 23).
\<close>

definition scenario_store :: "(int \<times> int) heap" where
  "scenario_store =
     \<lparr>coords = fmupd 20 \<lparr>vertex = (0, 0), coord_next = Some 21\<rparr>
               (fmupd 21 \<lparr>vertex = (1, 0), coord_next = Some 22\<rparr>
               (fmupd 22 \<lparr>vertex = (1, 1), coord_next = None\<rparr>
               (fmupd 23 \<lparr>vertex = (5, 5), coord_next = None\<rparr> fmempty))),
      loops = fmupd 10 \<lparr>loop_first = Some 20, loop_last = Some 22, loop_next = None\<rparr>
               (fmupd 11 \<lparr>loop_first = Some 23, loop_last = Some 23, loop_next = None\<rparr> fmempty),
      polys = fmupd 40 \<lparr>poly_first = Some 10, poly_last = Some 10, poly_next = Some 41\<rparr>
               (fmupd 41 \<lparr>poly_first = Some 11, poly_last = Some 11, poly_next = None\<rparr>
                  fmempty)\<rparr>"

section \<open>Reads and writes\<close>

lemma load_simps:
  "load m None = Inl InvalidPointer"
  "load m (Some a) = (case fmlookup m a of None \<Rightarrow> Inl InvalidPointer | Some x \<Rightarrow> Inr x)"
  by (simp_all add: load_def)

section \<open>The append operations\<close>

text \<open>
  Claim C3. For a live polygon \<open>p\<close> and a block \<open>n\<close> that \<^verbatim>\<open>calloc\<close> returns (no live
  polygon): when \<^verbatim>\<open>p->next\<close> is \<^verbatim>\<open>NULL\<close>, \<^verbatim>\<open>addNewLinkedPolygon\<close> returns \<open>n\<close>, the polygon
  at \<open>n\<close> is all zero (\<^verbatim>\<open>first\<close>, \<^verbatim>\<open>last\<close> and \<^verbatim>\<open>next\<close> are \<^verbatim>\<open>NULL\<close>), \<^verbatim>\<open>p->next\<close> is \<open>n\<close>
  and nothing else of the store changes; when \<^verbatim>\<open>p->next\<close> is set, the assertion fails.
\<close>

theorem addNewLinkedPolygon_links:
  assumes "fmlookup (polys h) p = Some pg" and "fmlookup (polys h) n = None"
  shows "(poly_next pg = None \<longrightarrow>
           (\<exists>h'. addNewLinkedPolygon h (Some n) (Some p) = Inr (h', Some n) \<and>
              fmlookup (polys h') n =
                Some \<lparr>poly_first = None, poly_last = None, poly_next = None\<rparr> \<and>
              fmlookup (polys h') p = Some (pg\<lparr>poly_next := Some n\<rparr>) \<and>
              (\<forall>a. a \<noteq> n \<and> a \<noteq> p \<longrightarrow> fmlookup (polys h') a = fmlookup (polys h) a) \<and>
              loops h' = loops h \<and> coords h' = coords h)) \<and>
         (poly_next pg \<noteq> None \<longrightarrow>
           addNewLinkedPolygon h (Some n) (Some p) = Inl AssertionFailed)"
proof -
  from assms have "n \<noteq> p"
    by auto
  with assms show ?thesis
    by (simp add: addNewLinkedPolygon_def load_simps upd_poly_def calloc_polygon_def
        zero_polygon_def)
qed

theorem addNewLinkedPolygon_links_witness:
  "(\<exists>h'. addNewLinkedPolygon
       \<lparr>coords = fmempty, loops = fmempty,
        polys = fmupd 0 \<lparr>poly_first = None, poly_last = None, poly_next = None\<rparr> fmempty\<rparr>
       (Some 1) (Some 0) = Inr (h' :: unit heap, Some 1) \<and>
     fmlookup (polys h') 1 = Some \<lparr>poly_first = None, poly_last = None, poly_next = None\<rparr> \<and>
     fmlookup (polys h') 0 = Some \<lparr>poly_first = None, poly_last = None, poly_next = Some 1\<rparr>) \<and>
   addNewLinkedPolygon
       \<lparr>coords = fmempty, loops = fmempty,
        polys = fmupd 0 \<lparr>poly_first = None, poly_last = None, poly_next = Some 2\<rparr> fmempty\<rparr>
       (Some 1) (Some 0) = (Inl AssertionFailed :: error + (unit heap \<times> ptr))"
  using addNewLinkedPolygon_links [of
      "\<lparr>coords = fmempty, loops = fmempty,
        polys = fmupd 0 \<lparr>poly_first = None, poly_last = None, poly_next = None\<rparr> fmempty\<rparr> :: unit heap"
      0 "\<lparr>poly_first = None, poly_last = None, poly_next = None\<rparr>" 1]
    addNewLinkedPolygon_links [of
      "\<lparr>coords = fmempty, loops = fmempty,
        polys = fmupd 0 \<lparr>poly_first = None, poly_last = None, poly_next = Some 2\<rparr> fmempty\<rparr> :: unit heap"
      0 "\<lparr>poly_first = None, poly_last = None, poly_next = Some 2\<rparr>" 1]
  by auto

text \<open>
  Claim C4. For a live polygon \<open>p\<close> and any loop pointer \<open>l\<close>, \<^verbatim>\<open>addLinkedLoop\<close> does this:
  when \<^verbatim>\<open>p->last\<close> is \<^verbatim>\<open>NULL\<close> and \<^verbatim>\<open>p->first\<close> is \<^verbatim>\<open>NULL\<close>, \<^verbatim>\<open>p->first\<close> becomes \<open>l\<close>; when
  \<^verbatim>\<open>p->last\<close> is \<^verbatim>\<open>NULL\<close> and \<^verbatim>\<open>p->first\<close> is set, the assertion fails; when \<^verbatim>\<open>p->last\<close>
  is a live loop \<open>t\<close>, \<^verbatim>\<open>t->next\<close> becomes \<open>l\<close>. Where the call does not fail, \<^verbatim>\<open>p->last\<close>
  becomes \<open>l\<close>, \<open>l\<close> is returned, and nothing else of the store changes.
\<close>

theorem addLinkedLoop_appends:
  assumes "fmlookup (polys h) p = Some pg"
  shows "(poly_last pg = None \<and> poly_first pg = None \<longrightarrow>
           (\<exists>h'. addLinkedLoop h (Some p) l = Inr (h', l) \<and>
              fmlookup (polys h') p = Some (pg\<lparr>poly_first := l, poly_last := l\<rparr>) \<and>
              (\<forall>a. a \<noteq> p \<longrightarrow> fmlookup (polys h') a = fmlookup (polys h) a) \<and>
              loops h' = loops h \<and> coords h' = coords h)) \<and>
         (poly_last pg = None \<and> poly_first pg \<noteq> None \<longrightarrow>
           addLinkedLoop h (Some p) l = Inl AssertionFailed) \<and>
         (poly_last pg = Some t \<and> fmlookup (loops h) t = Some lt \<longrightarrow>
           (\<exists>h'. addLinkedLoop h (Some p) l = Inr (h', l) \<and>
              fmlookup (loops h') t = Some (lt\<lparr>loop_next := l\<rparr>) \<and>
              (\<forall>a. a \<noteq> t \<longrightarrow> fmlookup (loops h') a = fmlookup (loops h) a) \<and>
              fmlookup (polys h') p = Some (pg\<lparr>poly_last := l\<rparr>) \<and>
              (\<forall>a. a \<noteq> p \<longrightarrow> fmlookup (polys h') a = fmlookup (polys h) a) \<and>
              coords h' = coords h))"
  using assms
  by (simp add: addLinkedLoop_def load_simps upd_poly_def upd_loop_def)

theorem addLinkedLoop_appends_witness:
  "(\<exists>h'. addLinkedLoop example_store (Some 30) (Some 11) = Inr (h', Some 11) \<and>
      fmlookup (polys h') 30 =
        Some \<lparr>poly_first = Some 11, poly_last = Some 11, poly_next = None\<rparr>) \<and>
   addLinkedLoop example_store (Some 32) (Some 11) = Inl AssertionFailed \<and>
   (\<exists>h'. addLinkedLoop example_store (Some 31) (Some 12) = Inr (h', Some 12) \<and>
      fmlookup (loops h') 11 =
        Some \<lparr>loop_first = None, loop_last = None, loop_next = Some 12\<rparr> \<and>
      fmlookup (polys h') 31 =
        Some \<lparr>poly_first = Some 10, poly_last = Some 12, poly_next = None\<rparr>)"
  using
    addLinkedLoop_appends [where h = example_store and p = 30 and l = "Some 11"
      and pg = "\<lparr>poly_first = None, poly_last = None, poly_next = None\<rparr>"]
    addLinkedLoop_appends [where h = example_store and p = 32 and l = "Some 11"
      and pg = "\<lparr>poly_first = Some 10, poly_last = None, poly_next = None\<rparr>"]
    addLinkedLoop_appends [where h = example_store and p = 31 and l = "Some 12"
      and pg = "\<lparr>poly_first = Some 10, poly_last = Some 11, poly_next = None\<rparr>"
      and t = 11 and lt = "\<lparr>loop_first = None, loop_last = None, loop_next = None\<rparr>"]
  by (auto simp: example_store_def)


text \<open>
  Claim C5. For a live loop \<open>lp\<close>, a block \<open>n\<close> that \<^verbatim>\<open>malloc\<close> returns (no live coordinate
  node) and a point \<open>v\<close>, \<^verbatim>\<open>addLinkedCoord\<close> makes \<open>n\<close> a node that holds \<open>v\<close> with \<^verbatim>\<open>next\<close>
  \<^verbatim>\<open>NULL\<close>. When \<^verbatim>\<open>lp->last\<close> is \<^verbatim>\<open>NULL\<close> and \<^verbatim>\<open>lp->first\<close> is \<^verbatim>\<open>NULL\<close>, \<^verbatim>\<open>lp->first\<close>
  becomes \<open>n\<close>; when \<^verbatim>\<open>lp->last\<close> is \<^verbatim>\<open>NULL\<close> and \<^verbatim>\<open>lp->first\<close> is set, the assertion
  fails; when \<^verbatim>\<open>lp->last\<close> is a live node \<open>t\<close>, \<^verbatim>\<open>t->next\<close> becomes \<open>n\<close>. Where the call does
  not fail, \<^verbatim>\<open>lp->last\<close> becomes \<open>n\<close>, \<open>n\<close> is returned, and nothing else of the store
  changes.
\<close>

theorem addLinkedCoord_appends:
  assumes "fmlookup (loops h) lp = Some lo" and "fmlookup (coords h) n = None"
  shows "(loop_last lo = None \<and> loop_first lo = None \<longrightarrow>
           (\<exists>h'. addLinkedCoord h (Some n) (Some lp) v = Inr (h', Some n) \<and>
              fmlookup (coords h') n = Some \<lparr>vertex = v, coord_next = None\<rparr> \<and>
              (\<forall>a. a \<noteq> n \<longrightarrow> fmlookup (coords h') a = fmlookup (coords h) a) \<and>
              fmlookup (loops h') lp = Some (lo\<lparr>loop_first := Some n, loop_last := Some n\<rparr>) \<and>
              (\<forall>a. a \<noteq> lp \<longrightarrow> fmlookup (loops h') a = fmlookup (loops h) a) \<and>
              polys h' = polys h)) \<and>
         (loop_last lo = None \<and> loop_first lo \<noteq> None \<longrightarrow>
           addLinkedCoord h (Some n) (Some lp) v = Inl AssertionFailed) \<and>
         (loop_last lo = Some t \<and> fmlookup (coords h) t = Some ct \<longrightarrow>
           (\<exists>h'. addLinkedCoord h (Some n) (Some lp) v = Inr (h', Some n) \<and>
              fmlookup (coords h') n = Some \<lparr>vertex = v, coord_next = None\<rparr> \<and>
              fmlookup (coords h') t = Some (ct\<lparr>coord_next := Some n\<rparr>) \<and>
              (\<forall>a. a \<noteq> n \<and> a \<noteq> t \<longrightarrow> fmlookup (coords h') a = fmlookup (coords h) a) \<and>
              fmlookup (loops h') lp = Some (lo\<lparr>loop_last := Some n\<rparr>) \<and>
              (\<forall>a. a \<noteq> lp \<longrightarrow> fmlookup (loops h') a = fmlookup (loops h) a) \<and>
              polys h' = polys h))"
  using assms
  by (auto simp add: addLinkedCoord_def load_simps upd_coord_def upd_loop_def)

theorem addLinkedCoord_appends_witness:
  "(\<exists>h'. addLinkedCoord example_store (Some 22) (Some 11) (1, 1) = Inr (h', Some 22) \<and>
      fmlookup (coords h') 22 = Some \<lparr>vertex = (1, 1), coord_next = None\<rparr> \<and>
      fmlookup (loops h') 11 =
        Some \<lparr>loop_first = Some 22, loop_last = Some 22, loop_next = None\<rparr>) \<and>
   addLinkedCoord example_store (Some 22) (Some 12) (1, 1) = Inl AssertionFailed \<and>
   (\<exists>h'. addLinkedCoord example_store (Some 22) (Some 10) (1, 1) = Inr (h', Some 22) \<and>
      fmlookup (coords h') 22 = Some \<lparr>vertex = (1, 1), coord_next = None\<rparr> \<and>
      fmlookup (coords h') 21 = Some \<lparr>vertex = (1, 0), coord_next = Some 22\<rparr> \<and>
      fmlookup (loops h') 10 =
        Some \<lparr>loop_first = Some 20, loop_last = Some 22, loop_next = Some 11\<rparr>)"
  using
    addLinkedCoord_appends [where h = example_store and lp = 11 and n = 22 and v = "(1, 1)"
      and lo = "\<lparr>loop_first = None, loop_last = None, loop_next = None\<rparr>"]
    addLinkedCoord_appends [where h = example_store and lp = 12 and n = 22 and v = "(1, 1)"
      and lo = "\<lparr>loop_first = Some 20, loop_last = None, loop_next = None\<rparr>"]
    addLinkedCoord_appends [where h = example_store and lp = 10 and n = 22 and v = "(1, 1)"
      and lo = "\<lparr>loop_first = Some 20, loop_last = Some 21, loop_next = Some 11\<rparr>"
      and t = 21 and ct = "\<lparr>vertex = (1, 0), coord_next = None\<rparr>"]
  by (auto simp: example_store_def)

text \<open>
  Claim C8. A freshly constructed polygon (the one \<^verbatim>\<open>addNewLinkedPolygon\<close> allocates) and a
  freshly constructed loop (the one \<^verbatim>\<open>addNewLinkedLoop\<close> allocates) have \<^verbatim>\<open>first\<close> and
  \<^verbatim>\<open>last\<close> both \<^verbatim>\<open>NULL\<close>. One \<^verbatim>\<open>addLinkedLoop\<close> on a polygon with \<^verbatim>\<open>first\<close> and \<^verbatim>\<open>last\<close>
  \<^verbatim>\<open>NULL\<close> leaves \<^verbatim>\<open>first\<close> and \<^verbatim>\<open>last\<close> both equal to the appended loop, and one
  \<^verbatim>\<open>addLinkedCoord\<close> on a loop with \<^verbatim>\<open>first\<close> and \<^verbatim>\<open>last\<close> \<^verbatim>\<open>NULL\<close> leaves both equal to
  the new node; so \<^verbatim>\<open>first\<close> is \<^verbatim>\<open>NULL\<close> exactly when \<^verbatim>\<open>last\<close> is.
\<close>

theorem emptiness_after_construction_and_first_append:
  "(load (polys h) polygon = Inr pg \<and> poly_next pg = None \<longrightarrow>
      (\<exists>h' g. addNewLinkedPolygon h (Some n) polygon = Inr (h', Some n) \<and>
         load (polys h') (Some n) = Inr g \<and> poly_first g = None \<and> poly_last g = None)) \<and>
   (load (polys h) polygon = Inr pg \<and> (poly_last pg = None \<longrightarrow> poly_first pg = None) \<and>
    valid_ptr (loops h) (poly_last pg) \<longrightarrow>
      (\<exists>h' lo. addNewLinkedLoop h (Some n) polygon = Inr (h', Some n) \<and>
         load (loops h') (Some n) = Inr lo \<and> loop_first lo = None \<and> loop_last lo = None)) \<and>
   (load (polys h) polygon = Inr pg \<and> poly_first pg = None \<and> poly_last pg = None \<longrightarrow>
      (\<exists>h' g. addLinkedLoop h polygon l = Inr (h', l) \<and> load (polys h') polygon = Inr g \<and>
         poly_first g = l \<and> poly_last g = l \<and>
         ((poly_first g = None) = (poly_last g = None)))) \<and>
   (load (loops h) loop = Inr lp \<and> loop_first lp = None \<and> loop_last lp = None \<longrightarrow>
      (\<exists>h' lo. addLinkedCoord h (Some n) loop v = Inr (h', Some n) \<and>
         load (loops h') loop = Inr lo \<and>
         loop_first lo = Some n \<and> loop_last lo = Some n \<and>
         ((loop_first lo = None) = (loop_last lo = None)) \<and>
         load (coords h') (Some n) = Inr \<lparr>vertex = v, coord_next = None\<rparr>))"
proof (intro conjI impI; elim conjE)
  assume "load (polys h) polygon = Inr pg" "poly_next pg = None"
  then show "\<exists>h' g. addNewLinkedPolygon h (Some n) polygon = Inr (h', Some n) \<and>
         load (polys h') (Some n) = Inr g \<and> poly_first g = None \<and> poly_last g = None"
    by (cases polygon)
      (auto simp: addNewLinkedPolygon_def load_simps upd_poly_def calloc_polygon_def
        zero_polygon_def split: option.splits)
next
  assume "load (polys h) polygon = Inr pg" "poly_last pg = None \<longrightarrow> poly_first pg = None"
    "valid_ptr (loops h) (poly_last pg)"
  then show "\<exists>h' lo. addNewLinkedLoop h (Some n) polygon = Inr (h', Some n) \<and>
         load (loops h') (Some n) = Inr lo \<and> loop_first lo = None \<and> loop_last lo = None"
    by (cases polygon; cases "poly_last pg")
      (auto simp: addNewLinkedLoop_def addLinkedLoop_def load_simps upd_poly_def upd_loop_def
        calloc_loop_def zero_loop_def valid_ptr_def split: option.splits)
next
  assume "load (polys h) polygon = Inr pg" "poly_first pg = None" "poly_last pg = None"
  then show "\<exists>h' g. addLinkedLoop h polygon l = Inr (h', l) \<and>
         load (polys h') polygon = Inr g \<and> poly_first g = l \<and> poly_last g = l \<and>
         ((poly_first g = None) = (poly_last g = None))"
    by (cases polygon)
      (auto simp: addLinkedLoop_def load_simps upd_poly_def split: option.splits)
next
  assume "load (loops h) loop = Inr lp" "loop_first lp = None" "loop_last lp = None"
  then show "\<exists>h' lo. addLinkedCoord h (Some n) loop v = Inr (h', Some n) \<and>
         load (loops h') loop = Inr lo \<and>
         loop_first lo = Some n \<and> loop_last lo = Some n \<and>
         ((loop_first lo = None) = (loop_last lo = None)) \<and>
         load (coords h') (Some n) = Inr \<lparr>vertex = v, coord_next = None\<rparr>"
    by (cases loop)
      (auto simp: addLinkedCoord_def load_simps upd_loop_def split: option.splits)
qed

theorem emptiness_after_construction_and_first_append_witness:
  "(\<exists>h' g. addNewLinkedPolygon example_store (Some 33) (Some 30) = Inr (h', Some 33) \<and>
      load (polys h') (Some 33) = Inr g \<and> poly_first g = None \<and> poly_last g = None) \<and>
   (\<exists>h' lo. addNewLinkedLoop example_store (Some 13) (Some 31) = Inr (h', Some 13) \<and>
      load (loops h') (Some 13) = Inr lo \<and> loop_first lo = None \<and> loop_last lo = None) \<and>
   (\<exists>h' g. addLinkedLoop example_store (Some 30) (Some 11) = Inr (h', Some 11) \<and>
      load (polys h') (Some 30) = Inr g \<and>
      poly_first g = Some 11 \<and> poly_last g = Some 11 \<and>
      ((poly_first g = None) = (poly_last g = None))) \<and>
   (\<exists>h' lo. addLinkedCoord example_store (Some 22) (Some 11) (1, 1) = Inr (h', Some 22) \<and>
      load (loops h') (Some 11) = Inr lo \<and>
      loop_first lo = Some 22 \<and> loop_last lo = Some 22 \<and>
      ((loop_first lo = None) = (loop_last lo = None)) \<and>
      load (coords h') (Some 22) = Inr \<lparr>vertex = (1, 1), coord_next = None\<rparr>)"
proof -
  have p0: "load (polys example_store) (Some 30) =
      Inr \<lparr>poly_first = None, poly_last = None, poly_next = None\<rparr>"
    and p1: "load (polys example_store) (Some 31) =
      Inr \<lparr>poly_first = Some 10, poly_last = Some 11, poly_next = None\<rparr>"
    and l11: "load (loops example_store) (Some 11) =
      Inr \<lparr>loop_first = None, loop_last = None, loop_next = None\<rparr>"
    and v: "valid_ptr (loops example_store) (Some 11)"
    by (simp_all add: example_store_def load_simps valid_ptr_def)
  note app = emptiness_after_construction_and_first_append
  show ?thesis
    using app [where h = example_store and polygon = "Some 30" and n = 33
        and pg = "\<lparr>poly_first = None, poly_last = None, poly_next = None\<rparr>",
        THEN conjunct1]
      app [where h = example_store and polygon = "Some 31" and n = 13
        and pg = "\<lparr>poly_first = Some 10, poly_last = Some 11, poly_next = None\<rparr>",
        THEN conjunct2, THEN conjunct1]
      app [where h = example_store and polygon = "Some 30" and l = "Some 11"
        and pg = "\<lparr>poly_first = None, poly_last = None, poly_next = None\<rparr>",
        THEN conjunct2, THEN conjunct2, THEN conjunct1]
      app [where h = example_store and loop = "Some 11" and n = 22 and v = "(1, 1)"
        and lp = "\<lparr>loop_first = None, loop_last = None, loop_next = None\<rparr>",
        THEN conjunct2, THEN conjunct2, THEN conjunct2]
    by (simp add: p0 p1 l11 v)
qed

text \<open>
  Claim C7 says that after every append the object at the head's \<^verbatim>\<open>last\<close> has \<^verbatim>\<open>next\<close>
  \<^verbatim>\<open>NULL\<close>. \<^verbatim>\<open>addLinkedLoop\<close> does not touch the \<^verbatim>\<open>next\<close> of the loop it attaches: attaching
  loop 10 of the example store, whose \<^verbatim>\<open>next\<close> is loop 11, to the empty polygon 30 leaves
  \<^verbatim>\<open>last\<close> at loop 10 with \<^verbatim>\<open>next\<close> still loop 11.
\<close>

theorem last_next_set_after_addLinkedLoop_counterexample:
  "\<exists>h' g lo. addLinkedLoop example_store (Some 30) (Some 10) = Inr (h', Some 10) \<and>
     load (polys h') (Some 30) = Inr g \<and> poly_last g = Some 10 \<and>
     load (loops h') (poly_last g) = Inr lo \<and> loop_next lo = Some 11"
  by (simp add: addLinkedLoop_def example_store_def load_simps upd_poly_def)

text \<open>
  Claim C7, amended. After \<^verbatim>\<open>addLinkedCoord\<close> or \<^verbatim>\<open>addNewLinkedLoop\<close> completes, called
  with a block from the allocator that is no live object on a head whose \<^verbatim>\<open>last\<close> does
  not dangle, the object at the head's \<^verbatim>\<open>last\<close> has \<^verbatim>\<open>next\<close> \<^verbatim>\<open>NULL\<close>. After
  \<^verbatim>\<open>addLinkedLoop\<close> completes the same holds when the attached loop is live, its \<^verbatim>\<open>next\<close>
  is \<^verbatim>\<open>NULL\<close> at the call, and it is not already the polygon's \<^verbatim>\<open>last\<close>.
\<close>

theorem last_next_none_after_append:
  "(load (loops h) loop = Inr lp \<and> fmlookup (coords h) n = None \<and>
    valid_ptr (coords h) (loop_last lp) \<and>
    addLinkedCoord h (Some n) loop v = Inr (h', q) \<longrightarrow>
      (\<exists>lo c. load (loops h') loop = Inr lo \<and> load (coords h') (loop_last lo) = Inr c \<and>
         coord_next c = None)) \<and>
   (load (polys h) polygon = Inr pg \<and> fmlookup (loops h) n = None \<and>
    valid_ptr (loops h) (poly_last pg) \<and>
    addNewLinkedLoop h (Some n) polygon = Inr (h', q) \<longrightarrow>
      (\<exists>g lo. load (polys h') polygon = Inr g \<and> load (loops h') (poly_last g) = Inr lo \<and>
         loop_next lo = None)) \<and>
   (load (polys h) polygon = Inr pg \<and> load (loops h) l = Inr ll \<and> loop_next ll = None \<and>
    poly_last pg \<noteq> l \<and>
    addLinkedLoop h polygon l = Inr (h', q) \<longrightarrow>
      (\<exists>g lo. load (polys h') polygon = Inr g \<and> load (loops h') (poly_last g) = Inr lo \<and>
         loop_next lo = None))"
proof (intro conjI impI; elim conjE)
  assume "load (loops h) loop = Inr lp" "fmlookup (coords h) n = None"
    "valid_ptr (coords h) (loop_last lp)" "addLinkedCoord h (Some n) loop v = Inr (h', q)"
  then show "\<exists>lo c. load (loops h') loop = Inr lo \<and> load (coords h') (loop_last lo) = Inr c \<and>
         coord_next c = None"
    by (cases loop; cases "loop_last lp")
      (auto simp: addLinkedCoord_def load_simps upd_loop_def upd_coord_def valid_ptr_def
        split: option.splits if_splits)
next
  assume "load (polys h) polygon = Inr pg" "fmlookup (loops h) n = None"
    "valid_ptr (loops h) (poly_last pg)" "addNewLinkedLoop h (Some n) polygon = Inr (h', q)"
  then show "\<exists>g lo. load (polys h') polygon = Inr g \<and> load (loops h') (poly_last g) = Inr lo \<and>
         loop_next lo = None"
    by (cases polygon; cases "poly_last pg")
      (auto simp: addNewLinkedLoop_def addLinkedLoop_def load_simps upd_loop_def upd_poly_def
        calloc_loop_def zero_loop_def valid_ptr_def split: option.splits if_splits)
next
  assume "load (polys h) polygon = Inr pg" "load (loops h) l = Inr ll" "loop_next ll = None"
    "poly_last pg \<noteq> l" "addLinkedLoop h polygon l = Inr (h', q)"
  then show "\<exists>g lo. load (polys h') polygon = Inr g \<and> load (loops h') (poly_last g) = Inr lo \<and>
         loop_next lo = None"
    by (cases polygon; cases l; cases "poly_last pg")
      (auto simp: addLinkedLoop_def load_simps upd_loop_def upd_poly_def
        split: option.splits if_splits)
qed

theorem last_next_none_after_append_witness:
  "(\<exists>h' q lo c. addLinkedCoord example_store (Some 22) (Some 10) (1, 1) = Inr (h', q) \<and>
      load (loops h') (Some 10) = Inr lo \<and> load (coords h') (loop_last lo) = Inr c \<and>
      coord_next c = None) \<and>
   (\<exists>h' q g lo. addNewLinkedLoop example_store (Some 13) (Some 31) = Inr (h', q) \<and>
      load (polys h') (Some 31) = Inr g \<and> load (loops h') (poly_last g) = Inr lo \<and>
      loop_next lo = None) \<and>
   (\<exists>h' q g lo. addLinkedLoop example_store (Some 31) (Some 12) = Inr (h', q) \<and>
      load (polys h') (Some 31) = Inr g \<and> load (loops h') (poly_last g) = Inr lo \<and>
      loop_next lo = None)"
proof -
  obtain h1 q1 where r1: "addLinkedCoord example_store (Some 22) (Some 10) (1, 1) = Inr (h1, q1)"
    by (simp add: addLinkedCoord_def example_store_def load_simps upd_loop_def upd_coord_def)
  obtain h2 q2 where r2: "addNewLinkedLoop example_store (Some 13) (Some 31) = Inr (h2, q2)"
    by (simp add: addNewLinkedLoop_def addLinkedLoop_def calloc_loop_def example_store_def
        load_simps upd_loop_def upd_poly_def)
  obtain h3 q3 where r3: "addLinkedLoop example_store (Some 31) (Some 12) = Inr (h3, q3)"
    by (simp add: addLinkedLoop_def example_store_def load_simps upd_loop_def upd_poly_def)
  have pre: "load (loops example_store) (Some 10) =
      Inr \<lparr>loop_first = Some 20, loop_last = Some 21, loop_next = Some 11\<rparr>"
    "load (loops example_store) (Some 12) =
      Inr \<lparr>loop_first = Some 20, loop_last = None, loop_next = None\<rparr>"
    "load (polys example_store) (Some 31) =
      Inr \<lparr>poly_first = Some 10, poly_last = Some 11, poly_next = None\<rparr>"
    "fmlookup (coords example_store) 22 = None"
    "fmlookup (loops example_store) 13 = None"
    "valid_ptr (coords example_store) (Some 21)"
    "valid_ptr (loops example_store) (Some 11)"
    by (simp_all add: example_store_def load_simps valid_ptr_def)
  note app = last_next_none_after_append
  have c1: "\<exists>lo c. load (loops h1) (Some 10) = Inr lo \<and>
      load (coords h1) (loop_last lo) = Inr c \<and> coord_next c = None"
    using app [where h = example_store and loop = "Some 10" and n = 22 and v = "(1, 1)"
        and h' = h1 and q = q1
        and lp = "\<lparr>loop_first = Some 20, loop_last = Some 21, loop_next = Some 11\<rparr>",
        THEN conjunct1] r1
    by (simp add: pre)
  have c2: "\<exists>g lo. load (polys h2) (Some 31) = Inr g \<and>
      load (loops h2) (poly_last g) = Inr lo \<and> loop_next lo = None"
    using app [where h = example_store and polygon = "Some 31" and n = 13
        and h' = h2 and q = q2
        and pg = "\<lparr>poly_first = Some 10, poly_last = Some 11, poly_next = None\<rparr>",
        THEN conjunct2, THEN conjunct1] r2
    by (simp add: pre)
  have c3: "\<exists>g lo. load (polys h3) (Some 31) = Inr g \<and>
      load (loops h3) (poly_last g) = Inr lo \<and> loop_next lo = None"
    using app [where h = example_store and polygon = "Some 31" and l = "Some 12"
        and h' = h3 and q = q3
        and pg = "\<lparr>poly_first = Some 10, poly_last = Some 11, poly_next = None\<rparr>"
        and ll = "\<lparr>loop_first = Some 20, loop_last = None, loop_next = None\<rparr>",
        THEN conjunct2, THEN conjunct2] r3
    by (simp add: pre)
  from r1 c1 r2 c2 r3 c3 show ?thesis
    by blast
qed

section \<open>Chains\<close>

lemma chain_cong:
  "(\<And>a. a \<in> set as \<Longrightarrow> nx a = nx' a) \<Longrightarrow> next_chain nx p as = next_chain nx' p as"
  by (induction as arbitrary: p) (auto split: option.splits)

lemma chain_unique: "next_chain nx p as \<Longrightarrow> next_chain nx p bs \<Longrightarrow> as = bs"
proof (induction as arbitrary: p bs)
  case Nil
  then show ?case by (cases bs) auto
next
  case (Cons a as)
  then show ?case by (cases bs) (auto split: option.splits)
qed

lemma chain_suffix: "next_chain nx p (as @ a # bs) \<Longrightarrow> next_chain nx (Some a) (a # bs)"
proof (induction as arbitrary: p)
  case Nil
  then show ?case by simp
next
  case (Cons x xs)
  from Cons.prems obtain q where "next_chain nx q (xs @ a # bs)"
    by (auto split: option.splits)
  then show ?case
    by (rule Cons.IH)
qed

lemma chain_head_notin_tail:
  assumes "next_chain nx p (a # as)"
  shows "a \<notin> set as"
proof
  assume "a \<in> set as"
  then obtain xs ys where as: "as = xs @ a # ys"
    by (auto simp: in_set_conv_decomp)
  with assms have "next_chain nx p ((a # xs) @ a # ys)"
    by simp
  then have "next_chain nx (Some a) (a # ys)"
    by (rule chain_suffix)
  moreover from assms have "next_chain nx (Some a) (a # as)"
    by simp
  ultimately have "a # ys = a # as"
    by (rule chain_unique)
  with as show False
    by simp
qed

lemma chain_distinct: "next_chain nx p as \<Longrightarrow> distinct as"
proof (induction as arbitrary: p)
  case Nil
  then show ?case by simp
next
  case (Cons a as)
  from Cons.prems have "a \<notin> set as"
    by (rule chain_head_notin_tail)
  moreover from Cons.prems obtain q where "next_chain nx q as"
    by (auto split: option.splits)
  then have "distinct as"
    by (rule Cons.IH)
  ultimately show ?case by simp
qed

section \<open>Counting\<close>

lemma countLinkedPolygons_while_chain:
  "polygon_chain h p as \<Longrightarrow> c + int (length as) \<le> INT_MAX \<Longrightarrow>
   countLinkedPolygons_while h p c = Inr (c + int (length as))"
proof (induction as arbitrary: p c)
  case Nil
  then show ?case
    by (simp add: polygon_chain_def countLinkedPolygons_while.simps [of h None])
next
  case (Cons a as)
  from Cons.prems(1) obtain pg where p: "p = Some a" and pg: "fmlookup (polys h) a = Some pg"
    and rest: "polygon_chain h (poly_next pg) as"
    by (auto simp: polygon_chain_def split: option.splits)
  from Cons.prems(2) have "\<not> INT_MAX \<le> c" and "(c + 1) + int (length as) \<le> INT_MAX"
    by simp_all
  with Cons.IH [OF rest, of "c + 1"] p pg show ?case
    by (simp add: countLinkedPolygons_while.simps [of h "Some a"] load_simps)
qed

lemma countLinkedLoops_while_chain:
  "loop_chain h p as \<Longrightarrow> c + int (length as) \<le> INT_MAX \<Longrightarrow>
   countLinkedLoops_while h p c = Inr (c + int (length as))"
proof (induction as arbitrary: p c)
  case Nil
  then show ?case
    by (simp add: loop_chain_def countLinkedLoops_while.simps [of h None])
next
  case (Cons a as)
  from Cons.prems(1) obtain lp where p: "p = Some a" and lp: "fmlookup (loops h) a = Some lp"
    and rest: "loop_chain h (loop_next lp) as"
    by (auto simp: loop_chain_def split: option.splits)
  from Cons.prems(2) have "\<not> INT_MAX \<le> c" and "(c + 1) + int (length as) \<le> INT_MAX"
    by simp_all
  with Cons.IH [OF rest, of "c + 1"] p lp show ?case
    by (simp add: countLinkedLoops_while.simps [of h "Some a"] load_simps)
qed

lemma countLinkedCoords_while_chain:
  "coord_chain h p as \<Longrightarrow> c + int (length as) \<le> INT_MAX \<Longrightarrow>
   countLinkedCoords_while h p c = Inr (c + int (length as))"
proof (induction as arbitrary: p c)
  case Nil
  then show ?case
    by (simp add: coord_chain_def countLinkedCoords_while.simps [of h None])
next
  case (Cons a as)
  from Cons.prems(1) obtain x where p: "p = Some a" and x: "fmlookup (coords h) a = Some x"
    and rest: "coord_chain h (coord_next x) as"
    by (auto simp: coord_chain_def split: option.splits)
  from Cons.prems(2) have "\<not> INT_MAX \<le> c" and "(c + 1) + int (length as) \<le> INT_MAX"
    by simp_all
  with Cons.IH [OF rest, of "c + 1"] p x show ?case
    by (simp add: countLinkedCoords_while.simps [of h "Some a"] load_simps)
qed

text \<open>
  Claim C9. Each count function returns the number of nodes of the chain it walks:
  \<^verbatim>\<open>countLinkedPolygons\<close> the length of the polygon chain from its argument,
  \<^verbatim>\<open>countLinkedLoops\<close> the length of the loop chain from \<^verbatim>\<open>polygon->first\<close>,
  \<^verbatim>\<open>countLinkedCoords\<close> the length of the coordinate chain from \<^verbatim>\<open>loop->first\<close>, for every
  chain of at most \<^verbatim>\<open>INT_MAX\<close> nodes (longer chains are outside the scope the
  specification sets). Each returns 0 for an absent chain: a \<^verbatim>\<open>NULL\<close> polygon, or a
  \<^verbatim>\<open>first\<close> that is \<^verbatim>\<open>NULL\<close>. The functions mutate nothing: the source of the three
  functions has no assignment through a pointer and no call, so their embeddings take the
  store as an argument and return the count alone; the store after the call is the store
  before it.
\<close>

theorem count_functions_return_chain_length:
  "(polygon_chain h polygon ps \<and> int (length ps) \<le> INT_MAX \<longrightarrow>
      countLinkedPolygons h polygon = Inr (int (length ps))) \<and>
   (load (polys h) polygon = Inr pg \<and> loop_chain h (poly_first pg) ls \<and>
    int (length ls) \<le> INT_MAX \<longrightarrow>
      countLinkedLoops h polygon = Inr (int (length ls))) \<and>
   (load (loops h) loop = Inr lp \<and> coord_chain h (loop_first lp) cs \<and>
    int (length cs) \<le> INT_MAX \<longrightarrow>
      countLinkedCoords h loop = Inr (int (length cs))) \<and>
   countLinkedPolygons h None = Inr 0 \<and>
   (load (polys h) polygon = Inr pg \<and> poly_first pg = None \<longrightarrow>
      countLinkedLoops h polygon = Inr 0) \<and>
   (load (loops h) loop = Inr lp \<and> loop_first lp = None \<longrightarrow>
      countLinkedCoords h loop = Inr 0)"
  using countLinkedPolygons_while_chain [of h polygon ps 0]
    countLinkedLoops_while_chain [of h "poly_first pg" ls 0]
    countLinkedCoords_while_chain [of h "loop_first lp" cs 0]
  by (simp add: countLinkedPolygons_def countLinkedLoops_def countLinkedCoords_def
      countLinkedPolygons_while.simps [of h None] countLinkedLoops_while.simps [of h None]
      countLinkedCoords_while.simps [of h None])

theorem count_functions_return_chain_length_witness:
  "countLinkedPolygons example_store (Some 31) = Inr 1 \<and>
   countLinkedLoops example_store (Some 31) = Inr 2 \<and>
   countLinkedCoords example_store (Some 10) = Inr 2 \<and>
   countLinkedPolygons example_store None = Inr 0 \<and>
   countLinkedLoops example_store (Some 30) = Inr 0 \<and>
   countLinkedCoords example_store (Some 11) = Inr 0"
proof -
  have pre: "polygon_chain example_store (Some 31) [31]"
    "load (polys example_store) (Some 31) =
      Inr \<lparr>poly_first = Some 10, poly_last = Some 11, poly_next = None\<rparr>"
    "loop_chain example_store (Some 10) [10, 11]"
    "load (loops example_store) (Some 10) =
      Inr \<lparr>loop_first = Some 20, loop_last = Some 21, loop_next = Some 11\<rparr>"
    "coord_chain example_store (Some 20) [20, 21]"
    "load (polys example_store) (Some 30) =
      Inr \<lparr>poly_first = None, poly_last = None, poly_next = None\<rparr>"
    "load (loops example_store) (Some 11) =
      Inr \<lparr>loop_first = None, loop_last = None, loop_next = None\<rparr>"
    by (simp_all add: example_store_def load_simps polygon_chain_def loop_chain_def
        coord_chain_def)
  note len = count_functions_return_chain_length
  show ?thesis
    using len [where h = example_store and polygon = "Some 31" and ps = "[31]"
        and pg = "\<lparr>poly_first = Some 10, poly_last = Some 11, poly_next = None\<rparr>"
        and ls = "[10, 11]" and loop = "Some 10" and cs = "[20, 21]"
        and lp = "\<lparr>loop_first = Some 20, loop_last = Some 21, loop_next = Some 11\<rparr>"]
      len [where h = example_store and polygon = "Some 30"
        and pg = "\<lparr>poly_first = None, poly_last = None, poly_next = None\<rparr>"
        and loop = "Some 11"
        and lp = "\<lparr>loop_first = None, loop_last = None, loop_next = None\<rparr>"]
    by (simp add: pre INT_MAX_def)
qed

section \<open>Sequences of appends\<close>

lemma chain_snoc:
  assumes "next_chain nx p (as @ [t])" and "n \<notin> set (as @ [t])"
    and "nx' t = Some (Some n)" and "nx' n = Some None"
    and "\<And>a. a \<noteq> t \<Longrightarrow> a \<noteq> n \<Longrightarrow> nx' a = nx a"
  shows "next_chain nx' p (as @ [t, n])"
  using assms(1,2)
proof (induction as arbitrary: p)
  case Nil
  with assms(3,4) show ?case
    by (auto split: option.splits)
next
  case (Cons a as)
  from Cons.prems(1) obtain q where p: "p = Some a" and q: "nx a = Some q"
    and rest: "next_chain nx q (as @ [t])"
    by (auto split: option.splits)
  from Cons.prems(1) have "a \<notin> set (as @ [t])"
    using chain_head_notin_tail [of nx p a "as @ [t]"] by simp
  with Cons.prems(2) have "nx' a = nx a"
    by (intro assms(5)) auto
  moreover from Cons.prems(2) have "next_chain nx' q (as @ [t, n])"
    by (intro Cons.IH [OF rest]) auto
  ultimately show ?case
    using p q by simp
qed

lemma chain_last_next: "next_chain nx p (as @ [t]) \<Longrightarrow> nx t = Some None"
  by (induction as arbitrary: p) (auto split: option.splits)

lemma addNewLinkedPolygon_calls_chain:
  assumes "polygon_chain h p0 (as @ [cur])" and "distinct ns"
    and "\<forall>n\<in>set ns. fmlookup (polys h) n = None"
  shows "\<exists>h' q. addNewLinkedPolygon_calls h (Some cur) (map Some ns) = Inr (h', q) \<and>
           polygon_chain h' p0 (as @ cur # ns)"
  using assms
proof (induction ns arbitrary: h as cur)
  case Nil
  then show ?case by simp
next
  case (Cons n ns)
  let ?nx = "\<lambda>h :: 'a heap. \<lambda>a. map_option poly_next (fmlookup (polys h) a)"
  from Cons.prems(1) have "?nx h cur = Some None"
    unfolding polygon_chain_def by (rule chain_last_next)
  then obtain pg where pg: "fmlookup (polys h) cur = Some pg" and nxt: "poly_next pg = None"
    by auto
  from Cons.prems(3) have fresh: "fmlookup (polys h) n = None"
    by simp
  with pg have ne: "n \<noteq> cur"
    by auto
  define h1 where "h1 = h\<lparr>polys := fmupd cur (pg\<lparr>poly_next := Some n\<rparr>)
    (fmupd n zero_polygon (polys h))\<rparr>"
  from pg nxt ne have call: "addNewLinkedPolygon h (Some n) (Some cur) = Inr (h1, Some n)"
    by (simp add: addNewLinkedPolygon_def load_simps upd_poly_def calloc_polygon_def h1_def)
  have "n \<notin> set (as @ [cur])"
  proof
    assume "n \<in> set (as @ [cur])"
    then obtain xs ys where "as @ [cur] = xs @ n # ys"
      by (auto simp: in_set_conv_decomp)
    with Cons.prems(1) have "next_chain (?nx h) (Some n) (n # ys)"
      unfolding polygon_chain_def by (metis chain_suffix)
    with fresh show False
      by simp
  qed
  with Cons.prems(1) have "next_chain (?nx h1) p0 (as @ [cur, n])"
    unfolding polygon_chain_def
    by (rule chain_snoc) (use ne in \<open>auto simp: h1_def zero_polygon_def\<close>)
  then have ch: "polygon_chain h1 p0 ((as @ [cur]) @ [n])"
    by (simp add: polygon_chain_def)
  from Cons.prems(2,3) pg have "\<forall>m\<in>set ns. fmlookup (polys h1) m = None"
    by (auto simp: h1_def)
  with Cons.IH [OF ch] Cons.prems(2) call show ?case
    by simp
qed

text \<open>
  Claim C6. Start from one live polygon \<open>p\<close> whose \<^verbatim>\<open>next\<close> is \<^verbatim>\<open>NULL\<close> and make \<open>K\<close> calls
  of \<^verbatim>\<open>addNewLinkedPolygon\<close>, each on the polygon the call before returned, where the
  blocks \<open>ns\<close> that \<^verbatim>\<open>calloc\<close> returns are \<open>K\<close> different addresses that are no live
  polygons. Then every call succeeds and \<^verbatim>\<open>countLinkedPolygons\<close> on \<open>p\<close> returns \<open>K + 1\<close>
  (for \<open>K + 1\<close> up to \<^verbatim>\<open>INT_MAX\<close>).
\<close>

theorem countLinkedPolygons_after_addNewLinkedPolygon_calls:
  assumes "fmlookup (polys h) p = Some pg" and "poly_next pg = None"
    and "distinct ns" and "\<forall>n\<in>set ns. fmlookup (polys h) n = None"
    and "int (length ns) + 1 \<le> INT_MAX"
  shows "\<exists>h' q. addNewLinkedPolygon_calls h (Some p) (map Some ns) = Inr (h', q) \<and>
           countLinkedPolygons h' (Some p) = Inr (int (length ns) + 1)"
proof -
  from assms(1,2) have "polygon_chain h (Some p) ([] @ [p])"
    by (simp add: polygon_chain_def)
  from addNewLinkedPolygon_calls_chain [OF this assms(3,4)]
  obtain h' q where call: "addNewLinkedPolygon_calls h (Some p) (map Some ns) = Inr (h', q)"
    and ch: "polygon_chain h' (Some p) (p # ns)"
    by auto
  from countLinkedPolygons_while_chain [OF ch, of 0] assms(5)
  have "countLinkedPolygons h' (Some p) = Inr (int (length ns) + 1)"
    by (simp add: countLinkedPolygons_def)
  with call show ?thesis
    by blast
qed

theorem countLinkedPolygons_after_addNewLinkedPolygon_calls_witness:
  "(\<exists>h' q. addNewLinkedPolygon_calls example_store (Some 30) [Some 33, Some 34] = Inr (h', q) \<and>
      countLinkedPolygons h' (Some 30) = Inr 3) \<and>
   (\<exists>h' q. addNewLinkedPolygon_calls example_store (Some 30) [] = Inr (h', q) \<and>
      countLinkedPolygons h' (Some 30) = Inr 1)"
  using
    countLinkedPolygons_after_addNewLinkedPolygon_calls [where h = example_store and p = 30
      and pg = "\<lparr>poly_first = None, poly_last = None, poly_next = None\<rparr>" and ns = "[33, 34]"]
    countLinkedPolygons_after_addNewLinkedPolygon_calls [where h = example_store and p = 30
      and pg = "\<lparr>poly_first = None, poly_last = None, poly_next = None\<rparr>" and ns = "[]"]
  by (simp add: example_store_def INT_MAX_def)

lemma chain_live: "next_chain nx p as \<Longrightarrow> a \<in> set as \<Longrightarrow> nx a \<noteq> None"
  by (induction as arbitrary: p) (auto split: option.splits)

lemma addLinkedCoord_snoc:
  assumes lp: "fmlookup (loops h) l = Some lp"
    and ch: "coord_chain h (loop_first lp) as"
    and lst: "loop_last lp = (if as = [] then None else Some (last as))"
    and fresh: "fmlookup (coords h) n = None"
  shows "\<exists>h' lp'. addLinkedCoord h (Some n) (Some l) v = Inr (h', Some n) \<and>
      fmlookup (loops h') l = Some lp' \<and> coord_chain h' (loop_first lp') (as @ [n]) \<and>
      loop_last lp' = Some n \<and> vertices h' (as @ [n]) = vertices h as @ [Some v] \<and>
      (\<forall>m. m \<noteq> n \<longrightarrow> fmlookup (coords h) m = None \<longrightarrow> fmlookup (coords h') m = None)"
proof (cases as rule: rev_cases)
  case Nil
  with ch lst have "loop_first lp = None" "loop_last lp = None"
    by (simp_all add: coord_chain_def)
  with lp Nil show ?thesis
    by (simp add: addLinkedCoord_def load_simps upd_loop_def coord_chain_def vertices_def)
next
  case (snoc bs t)
  let ?nx = "\<lambda>h :: 'a heap. \<lambda>a. map_option coord_next (fmlookup (coords h) a)"
  from ch snoc have chn: "next_chain (?nx h) (loop_first lp) (bs @ [t])"
    by (simp add: coord_chain_def)
  then have "?nx h t = Some None"
    by (rule chain_last_next)
  then obtain ct where ct: "fmlookup (coords h) t = Some ct" and "coord_next ct = None"
    by auto
  from lst snoc have last_t: "loop_last lp = Some t"
    by simp
  from ct fresh have ne: "t \<noteq> n"
    by auto
  have live: "fmlookup (coords h) a \<noteq> None" if "a \<in> set as" for a
    using chain_live [OF chn, of a] that snoc by auto
  have "n \<notin> set as"
    using live [of n] fresh by blast
  with snoc have notin: "n \<notin> set (bs @ [t])"
    by simp
  define h' where "h' = h\<lparr>coords := fmupd t (ct\<lparr>coord_next := Some n\<rparr>)
      (fmupd n \<lparr>vertex = v, coord_next = None\<rparr> (coords h)),
    loops := fmupd l (lp\<lparr>loop_last := Some n\<rparr>) (loops h)\<rparr>"
  from lp last_t ct ne have call: "addLinkedCoord h (Some n) (Some l) v = Inr (h', Some n)"
    by (simp add: addLinkedCoord_def load_simps upd_loop_def upd_coord_def h'_def)
  from chn notin have "next_chain (?nx h') (loop_first lp) (bs @ [t, n])"
    by (rule chain_snoc) (use ne in \<open>auto simp: h'_def\<close>)
  then have ch': "coord_chain h' (loop_first lp) (as @ [n])"
    using snoc by (simp add: coord_chain_def)
  have "map_option vertex (fmlookup (coords h') a) = map_option vertex (fmlookup (coords h) a)"
    if "a \<in> set as" for a
    using live [OF that] fresh ct by (auto simp: h'_def)
  then have "vertices h' as = vertices h as"
    by (simp add: vertices_def)
  then have vs: "vertices h' (as @ [n]) = vertices h as @ [Some v]"
    using ne by (simp add: vertices_def h'_def)
  have "\<forall>m. m \<noteq> n \<longrightarrow> fmlookup (coords h) m = None \<longrightarrow> fmlookup (coords h') m = None"
    using ct by (auto simp: h'_def)
  with call ch' vs show ?thesis
    by (simp add: h'_def)
qed

lemma addLinkedCoord_calls_chain:
  assumes "fmlookup (loops h) l = Some lp"
    and "coord_chain h (loop_first lp) as"
    and "loop_last lp = (if as = [] then None else Some (last as))"
    and "distinct (map fst nvs)"
    and "\<forall>n\<in>set (map fst nvs). fmlookup (coords h) n = None"
  shows "\<exists>h' lp'. addLinkedCoord_calls h (Some l) (map (\<lambda>(n, v). (Some n, v)) nvs) = Inr h' \<and>
      fmlookup (loops h') l = Some lp' \<and>
      coord_chain h' (loop_first lp') (as @ map fst nvs) \<and>
      vertices h' (as @ map fst nvs) = vertices h as @ map (\<lambda>(n, v). Some v) nvs"
  using assms
proof (induction nvs arbitrary: h lp as)
  case Nil
  then show ?case by simp
next
  case (Cons nv nvs)
  obtain n v where nv: "nv = (n, v)"
    by (cases nv)
  from Cons.prems(5) nv have fresh: "fmlookup (coords h) n = None"
    by simp
  from addLinkedCoord_snoc [OF Cons.prems(1-3) fresh, of v]
  obtain h1 lp1 where call: "addLinkedCoord h (Some n) (Some l) v = Inr (h1, Some n)"
    and lp1: "fmlookup (loops h1) l = Some lp1"
    and ch1: "coord_chain h1 (loop_first lp1) (as @ [n])"
    and last1: "loop_last lp1 = Some n"
    and vs1: "vertices h1 (as @ [n]) = vertices h as @ [Some v]"
    and keep: "\<forall>m. m \<noteq> n \<longrightarrow> fmlookup (coords h) m = None \<longrightarrow> fmlookup (coords h1) m = None"
    by blast
  from last1 have last1': "loop_last lp1 = (if as @ [n] = [] then None else Some (last (as @ [n])))"
    by simp
  from Cons.prems(4) nv have d: "distinct (map fst nvs)" and nn: "n \<notin> set (map fst nvs)"
    by simp_all
  have fresh1: "\<forall>m\<in>set (map fst nvs). fmlookup (coords h1) m = None"
  proof
    fix m
    assume m: "m \<in> set (map fst nvs)"
    with nn have "m \<noteq> n"
      by blast
    moreover from Cons.prems(5) m have "fmlookup (coords h) m = None"
      by auto
    ultimately show "fmlookup (coords h1) m = None"
      using keep by blast
  qed
  from Cons.IH [OF lp1 ch1 last1' d fresh1] vs1 call nv show ?case
    by simp
qed

text \<open>
  Claim C1. Take a fresh loop \<open>l\<close> (\<^verbatim>\<open>first\<close> and \<^verbatim>\<open>last\<close> \<^verbatim>\<open>NULL\<close>) and make \<open>N\<close> calls of
  \<^verbatim>\<open>addLinkedCoord\<close> on it, call \<open>i\<close> with the point \<open>v\<^sub>i\<close> and with \<open>n\<^sub>i\<close> the block that
  \<^verbatim>\<open>malloc\<close> returns, the blocks being \<open>N\<close> different addresses that are no live
  coordinate nodes. Then every call succeeds, \<^verbatim>\<open>countLinkedCoords\<close> returns \<open>N\<close> (for \<open>N\<close>
  up to \<^verbatim>\<open>INT_MAX\<close>), and following \<^verbatim>\<open>next\<close> from \<^verbatim>\<open>l->first\<close> visits exactly the nodes
  \<open>n\<^sub>1, \<dots>, n\<^sub>N\<close>, which hold the points \<open>v\<^sub>1, \<dots>, v\<^sub>N\<close>, in the order of the calls.
\<close>

theorem addLinkedCoord_calls_count_and_order:
  assumes "fmlookup (loops h) l = Some lp" and "loop_first lp = None" and "loop_last lp = None"
    and "distinct (map fst nvs)" and "\<forall>n\<in>set (map fst nvs). fmlookup (coords h) n = None"
    and "int (length nvs) \<le> INT_MAX"
  shows "\<exists>h' lp'. addLinkedCoord_calls h (Some l) (map (\<lambda>(n, v). (Some n, v)) nvs) = Inr h' \<and>
      countLinkedCoords h' (Some l) = Inr (int (length nvs)) \<and>
      fmlookup (loops h') l = Some lp' \<and>
      coord_chain h' (loop_first lp') (map fst nvs) \<and>
      vertices h' (map fst nvs) = map (\<lambda>(n, v). Some v) nvs"
proof -
  from assms(2,3) have "coord_chain h (loop_first lp) []"
    and "loop_last lp = (if [] = ([] :: addr list) then None else Some (last []))"
    by (simp_all add: coord_chain_def)
  from addLinkedCoord_calls_chain [OF assms(1) this assms(4,5)]
  obtain h' lp' where
    call: "addLinkedCoord_calls h (Some l) (map (\<lambda>(n, v). (Some n, v)) nvs) = Inr h'"
    and lp': "fmlookup (loops h') l = Some lp'"
    and ch: "coord_chain h' (loop_first lp') (map fst nvs)"
    and vs: "vertices h' (map fst nvs) = map (\<lambda>(n, v). Some v) nvs"
    by (auto simp: vertices_def)
  from countLinkedCoords_while_chain [OF ch, of 0] assms(6) lp'
  have "countLinkedCoords h' (Some l) = Inr (int (length nvs))"
    by (simp add: countLinkedCoords_def load_simps)
  with call lp' ch vs show ?thesis
    by blast
qed

theorem addLinkedCoord_calls_count_and_order_witness:
  "\<exists>h' lp'. addLinkedCoord_calls example_store (Some 11)
       [(Some 22, (0, 0)), (Some 23, (1, 0)), (Some 24, (1, 1))] = Inr h' \<and>
     countLinkedCoords h' (Some 11) = Inr 3 \<and>
     fmlookup (loops h') 11 = Some lp' \<and>
     coord_chain h' (loop_first lp') [22, 23, 24] \<and>
     vertices h' [22, 23, 24] = [Some (0, 0), Some (1, 0), Some (1, 1)]"
  using addLinkedCoord_calls_count_and_order [where h = example_store and l = 11
      and lp = "\<lparr>loop_first = None, loop_last = None, loop_next = None\<rparr>"
      and nvs = "[(22, (0, 0)), (23, (1, 0)), (24, (1, 1))]"]
  by (simp add: example_store_def INT_MAX_def)

section \<open>Attaching a loop that has a next_chain\<close>

lemma chain_common_last:
  assumes "next_chain nx p as" and "next_chain nx q bs" and "x \<in> set as" and "x \<in> set bs"
  shows "last as = last bs"
proof -
  from assms(3) obtain as1 as2 where as: "as = as1 @ x # as2"
    by (auto simp: in_set_conv_decomp)
  from assms(4) obtain bs1 bs2 where bs: "bs = bs1 @ x # bs2"
    by (auto simp: in_set_conv_decomp)
  from assms(1) as have "next_chain nx (Some x) (x # as2)"
    by (metis chain_suffix)
  moreover from assms(2) bs have "next_chain nx (Some x) (x # bs2)"
    by (metis chain_suffix)
  ultimately have "x # as2 = x # bs2"
    by (rule chain_unique)
  with as bs show ?thesis
    by simp
qed

lemma chain_append_link:
  assumes "next_chain nx p (as @ [t])" and "next_chain nx (Some l) cs"
    and "set (as @ [t]) \<inter> set cs = {}"
    and "nx' t = Some (Some l)" and "\<And>a. a \<noteq> t \<Longrightarrow> nx' a = nx a"
  shows "next_chain nx' p (as @ t # cs)"
  using assms(1,3)
proof (induction as arbitrary: p)
  case Nil
  from Nil.prems(2) have "t \<notin> set cs"
    by simp
  then have "next_chain nx' (Some l) cs = next_chain nx (Some l) cs"
    by (intro chain_cong assms(5)) auto
  with Nil.prems(1) assms(2,4) show ?case
    by (auto split: option.splits)
next
  case (Cons a as)
  from Cons.prems(1) obtain q where p: "p = Some a" and q: "nx a = Some q"
    and rest: "next_chain nx q (as @ [t])"
    by (auto split: option.splits)
  from Cons.prems(1) have "a \<notin> set (as @ [t])"
    using chain_head_notin_tail [of nx p a "as @ [t]"] by simp
  then have "nx' a = nx a"
    by (intro assms(5)) auto
  moreover from Cons.prems(2) have "next_chain nx' q (as @ t # cs)"
    by (intro Cons.IH [OF rest]) auto
  ultimately show ?case
    using p q by simp
qed

lemma addLinkedLoop_commutes_with_next:
  assumes pg: "load (polys h) polygon = Inr pg" and ne: "poly_last pg \<noteq> Some l"
    and hx: "upd_loop (Some l) (\<lambda>r. r\<lparr>loop_next := x\<rparr>) h = Inr hx"
    and call: "addLinkedLoop h polygon (Some l) = Inr (h', q)"
  shows "\<exists>k. addLinkedLoop hx polygon (Some l) = Inr (k, q) \<and>
           upd_loop (Some l) (\<lambda>r. r\<lparr>loop_next := x\<rparr>) h' = Inr k"
proof -
  from pg obtain p where p: "polygon = Some p" and pgl: "fmlookup (polys h) p = Some pg"
    by (cases polygon) (auto simp: load_simps split: option.splits)
  from hx obtain ll where ll: "fmlookup (loops h) l = Some ll"
    and hx_eq: "hx = h\<lparr>loops := fmupd l (ll\<lparr>loop_next := x\<rparr>) (loops h)\<rparr>"
    by (auto simp: upd_loop_def load_simps split: option.splits)
  show ?thesis
  proof (cases "poly_last pg")
    case None
    with call p pgl ll show ?thesis
      by (auto simp: addLinkedLoop_def load_simps upd_poly_def upd_loop_def hx_eq
          split: if_splits)
  next
    case (Some t)
    with ne have "t \<noteq> l"
      by simp
    with Some call p pgl ll show ?thesis
      by (auto simp: addLinkedLoop_def load_simps upd_poly_def upd_loop_def hx_eq
          fmupd_reorder_neq split: if_splits option.splits)
  qed
qed

text \<open>
  Claim C10 says that \<^verbatim>\<open>addLinkedLoop\<close> never writes the \<^verbatim>\<open>next\<close> of the loop \<open>l\<close> it
  attaches, for every polygon and loop. The write \<^verbatim>\<open>last->next = loop\<close> goes to \<open>l\<close> itself
  when \<open>l\<close> is already the polygon's \<^verbatim>\<open>last\<close>: in the example store loop 10 has the chain
  10, 11 hanging off it and is the \<^verbatim>\<open>last\<close> of polygon 35; attaching loop 10 to polygon
  35 sets the \<^verbatim>\<open>next\<close> of loop 10 to loop 10, and loop 11 is cut off.
\<close>

theorem addLinkedLoop_rewrites_attached_next_counterexample:
  "\<exists>h' lo. loop_chain example_store (Some 10) [10, 11] \<and>
     addLinkedLoop example_store (Some 35) (Some 10) = Inr (h', Some 10) \<and>
     load (loops h') (Some 10) = Inr lo \<and> loop_next lo = Some 10 \<and>
     \<not> loop_chain h' (Some 10) [10, 11]"
  by (simp add: addLinkedLoop_def example_store_def load_simps upd_poly_def upd_loop_def
      loop_chain_def)

text \<open>
  Claim C10, amended. When the polygon's \<^verbatim>\<open>last\<close> is not the loop \<open>l\<close>, \<^verbatim>\<open>addLinkedLoop\<close>
  neither reads nor writes the \<^verbatim>\<open>next\<close> of \<open>l\<close>: the call commutes with any write of a
  value \<open>x\<close> to that field (written before the call or after it, the result and the
  store are the same). Let moreover the polygon's \<^verbatim>\<open>last\<close> be no loop of the chain
  \<open>l # rest\<close> that hangs off \<open>l\<close>. When \<^verbatim>\<open>addLinkedLoop\<close> completes, it returns
  \<open>l\<close>, every loop of the chain (with the \<^verbatim>\<open>next\<close> of \<open>l\<close>) is as it was, the chain still
  hangs off \<open>l\<close>, and the polygon's \<^verbatim>\<open>last\<close> is \<open>l\<close>. When moreover the polygon is well
  formed (its loop chain is \<open>ls\<close> and its \<^verbatim>\<open>last\<close> is the last loop of \<open>ls\<close>, or \<^verbatim>\<open>NULL\<close> for
  no loop), the call succeeds and the polygon's loop chain becomes \<open>ls\<close> followed by the
  whole chain \<open>l # rest\<close>, while \<^verbatim>\<open>last\<close> is \<open>l\<close>, which is not the tail of the chain when
  \<open>rest\<close> is not empty.
\<close>

theorem addLinkedLoop_keeps_attached_chain:
  "(load (polys h) polygon = Inr pg \<and> poly_last pg \<noteq> Some l \<and>
    upd_loop (Some l) (\<lambda>r. r\<lparr>loop_next := x\<rparr>) h = Inr hx \<and>
    addLinkedLoop h polygon (Some l) = Inr (h', q) \<longrightarrow>
      (\<exists>k. addLinkedLoop hx polygon (Some l) = Inr (k, q) \<and>
         upd_loop (Some l) (\<lambda>r. r\<lparr>loop_next := x\<rparr>) h' = Inr k)) \<and>
   (load (polys h) polygon = Inr pg \<and> loop_chain h (Some l) (l # rest) \<and>
    poly_last pg \<notin> Some ` set (l # rest) \<and>
    addLinkedLoop h polygon (Some l) = Inr (h', q) \<longrightarrow>
      q = Some l \<and>
      (\<forall>a\<in>set (l # rest). fmlookup (loops h') a = fmlookup (loops h) a) \<and>
      loop_chain h' (Some l) (l # rest) \<and>
      (\<exists>g. load (polys h') polygon = Inr g \<and> poly_last g = Some l)) \<and>
   (load (polys h) polygon = Inr pg \<and> loop_chain h (Some l) (l # rest) \<and>
    poly_last pg \<notin> Some ` set (l # rest) \<and>
    loop_chain h (poly_first pg) ls \<and>
    poly_last pg = (if ls = [] then None else Some (last ls)) \<longrightarrow>
      (\<exists>k g. addLinkedLoop h polygon (Some l) = Inr (k, Some l) \<and>
         load (polys k) polygon = Inr g \<and>
         loop_chain k (poly_first g) (ls @ l # rest) \<and>
         poly_last g = Some l \<and>
         (rest \<noteq> [] \<longrightarrow> poly_last g \<noteq> Some (last (l # rest)))))"
proof (intro conjI; rule impI; elim conjE)
  assume "load (polys h) polygon = Inr pg" "poly_last pg \<noteq> Some l"
    "upd_loop (Some l) (\<lambda>r. r\<lparr>loop_next := x\<rparr>) h = Inr hx"
    "addLinkedLoop h polygon (Some l) = Inr (h', q)"
  then show "\<exists>k. addLinkedLoop hx polygon (Some l) = Inr (k, q) \<and>
      upd_loop (Some l) (\<lambda>r. r\<lparr>loop_next := x\<rparr>) h' = Inr k"
    by (rule addLinkedLoop_commutes_with_next)
next
  let ?nx = "\<lambda>h :: 'a heap. \<lambda>a. map_option loop_next (fmlookup (loops h) a)"
  assume pg: "load (polys h) polygon = Inr pg"
    and ch: "loop_chain h (Some l) (l # rest)"
    and notin: "poly_last pg \<notin> Some ` set (l # rest)"
    and call: "addLinkedLoop h polygon (Some l) = Inr (h', q)"
  from pg obtain p where p: "polygon = Some p" and pgl: "fmlookup (polys h) p = Some pg"
    by (cases polygon) (auto simp: load_simps split: option.splits)
  have keep: "\<forall>a\<in>set (l # rest). fmlookup (loops h') a = fmlookup (loops h) a"
    and q: "q = Some l"
    and g: "\<exists>g. load (polys h') polygon = Inr g \<and> poly_last g = Some l"
    using call pgl p notin
    by (cases "poly_last pg";
        auto simp: addLinkedLoop_def load_simps upd_poly_def upd_loop_def
          split: option.splits if_splits)+
  from keep have "next_chain (?nx h') (Some l) (l # rest) = next_chain (?nx h) (Some l) (l # rest)"
    by (intro chain_cong) auto
  with ch have "loop_chain h' (Some l) (l # rest)"
    by (simp add: loop_chain_def)
  with keep q g show "q = Some l \<and>
      (\<forall>a\<in>set (l # rest). fmlookup (loops h') a = fmlookup (loops h) a) \<and>
      loop_chain h' (Some l) (l # rest) \<and>
      (\<exists>g. load (polys h') polygon = Inr g \<and> poly_last g = Some l)"
    by blast
next
  let ?nx = "\<lambda>h :: 'a heap. \<lambda>a. map_option loop_next (fmlookup (loops h) a)"
  assume pg: "load (polys h) polygon = Inr pg"
    and ch: "loop_chain h (Some l) (l # rest)"
    and notin: "poly_last pg \<notin> Some ` set (l # rest)"
    and chp: "loop_chain h (poly_first pg) ls"
    and lst: "poly_last pg = (if ls = [] then None else Some (last ls))"
  from pg obtain p where p: "polygon = Some p" and pgl: "fmlookup (polys h) p = Some pg"
    by (cases polygon) (auto simp: load_simps split: option.splits)
  from ch have "distinct (l # rest)"
    unfolding loop_chain_def by (rule chain_distinct)
  then have tail: "rest \<noteq> [] \<longrightarrow> Some l \<noteq> Some (last (l # rest))"
    by auto
  show "\<exists>k g. addLinkedLoop h polygon (Some l) = Inr (k, Some l) \<and>
         load (polys k) polygon = Inr g \<and>
         loop_chain k (poly_first g) (ls @ l # rest) \<and>
         poly_last g = Some l \<and>
         (rest \<noteq> [] \<longrightarrow> poly_last g \<noteq> Some (last (l # rest)))"
  proof (cases ls rule: rev_cases)
    case Nil
    with chp lst have first_last: "poly_first pg = None" "poly_last pg = None"
      by (simp_all add: loop_chain_def)
    define k where "k = h\<lparr>polys := fmupd p (pg\<lparr>poly_first := Some l, poly_last := Some l\<rparr>)
      (polys h)\<rparr>"
    from p pgl first_last have call: "addLinkedLoop h polygon (Some l) = Inr (k, Some l)"
      by (simp add: addLinkedLoop_def load_simps upd_poly_def k_def)
    have "loops k = loops h"
      by (simp add: k_def)
    with ch have "loop_chain k (Some l) ([] @ l # rest)"
      by (simp add: loop_chain_def)
    with call p tail Nil show ?thesis
      by (simp add: k_def load_simps)
  next
    case (snoc bs t)
    with lst have last_t: "poly_last pg = Some t"
      by simp
    from chp snoc have chn: "next_chain (?nx h) (poly_first pg) (bs @ [t])"
      by (simp add: loop_chain_def)
    then have "?nx h t = Some None"
      by (rule chain_last_next)
    then obtain lt where lt: "fmlookup (loops h) t = Some lt"
      by auto
    define k where "k = h\<lparr>loops := fmupd t (lt\<lparr>loop_next := Some l\<rparr>) (loops h),
      polys := fmupd p (pg\<lparr>poly_last := Some l\<rparr>) (polys h)\<rparr>"
    from p pgl last_t lt have call: "addLinkedLoop h polygon (Some l) = Inr (k, Some l)"
      by (simp add: addLinkedLoop_def load_simps upd_poly_def upd_loop_def k_def)
    have disj: "set (bs @ [t]) \<inter> set (l # rest) = {}"
    proof (rule ccontr)
      assume "set (bs @ [t]) \<inter> set (l # rest) \<noteq> {}"
      then obtain x where "x \<in> set (bs @ [t])" "x \<in> set (l # rest)"
        by blast
      with chn ch have "last (bs @ [t]) = last (l # rest)"
        unfolding loop_chain_def by (rule chain_common_last)
      then have "t \<in> set (l # rest)"
        by (metis last_in_set last_snoc list.distinct(1))
      with notin last_t show False
        by auto
    qed
    from chn ch [unfolded loop_chain_def] disj
    have "next_chain (?nx k) (poly_first pg) (bs @ t # l # rest)"
      by (rule chain_append_link) (auto simp: k_def)
    with snoc have "loop_chain k (poly_first pg) (ls @ l # rest)"
      by (simp add: loop_chain_def)
    with call p tail show ?thesis
      by (simp add: k_def load_simps)
  qed
qed

theorem addLinkedLoop_keeps_attached_chain_witness:
  "(\<exists>hx h' q k.
      upd_loop (Some 10) (\<lambda>r. r\<lparr>loop_next := Some 12\<rparr>) example_store = Inr hx \<and>
      addLinkedLoop example_store (Some 30) (Some 10) = Inr (h', q) \<and>
      addLinkedLoop hx (Some 30) (Some 10) = Inr (k, q) \<and>
      upd_loop (Some 10) (\<lambda>r. r\<lparr>loop_next := Some 12\<rparr>) h' = Inr k) \<and>
   (\<exists>h' q g. addLinkedLoop example_store (Some 30) (Some 10) = Inr (h', q) \<and> q = Some 10 \<and>
      fmlookup (loops h') 10 = fmlookup (loops example_store) 10 \<and>
      fmlookup (loops h') 11 = fmlookup (loops example_store) 11 \<and>
      loop_chain h' (Some 10) [10, 11] \<and>
      load (polys h') (Some 30) = Inr g \<and> poly_last g = Some 10) \<and>
   (\<exists>k g. addLinkedLoop example_store (Some 30) (Some 10) = Inr (k, Some 10) \<and>
      load (polys k) (Some 30) = Inr g \<and> loop_chain k (poly_first g) [10, 11] \<and>
      poly_last g = Some 10 \<and> poly_last g \<noteq> Some 11) \<and>
   (\<exists>k g. addLinkedLoop example_store (Some 31) (Some 12) = Inr (k, Some 12) \<and>
      load (polys k) (Some 31) = Inr g \<and> loop_chain k (poly_first g) [10, 11, 12] \<and>
      poly_last g = Some 12)"
proof -
  obtain h1 q1 where r1: "addLinkedLoop example_store (Some 30) (Some 10) = Inr (h1, q1)"
    by (simp add: addLinkedLoop_def example_store_def load_simps upd_poly_def)
  obtain hx where rx:
    "upd_loop (Some 10) (\<lambda>r. r\<lparr>loop_next := Some 12\<rparr>) example_store = Inr hx"
    by (simp add: upd_loop_def example_store_def load_simps)
  have pre: "load (polys example_store) (Some 30) =
      Inr \<lparr>poly_first = None, poly_last = None, poly_next = None\<rparr>"
    "load (polys example_store) (Some 31) =
      Inr \<lparr>poly_first = Some 10, poly_last = Some 11, poly_next = None\<rparr>"
    "loop_chain example_store (Some 10) [10, 11]"
    "loop_chain example_store (Some 12) [12]"
    "loop_chain example_store None []"
    by (simp_all add: example_store_def load_simps loop_chain_def)
  note app = addLinkedLoop_keeps_attached_chain
  have c0: "\<exists>k. addLinkedLoop hx (Some 30) (Some 10) = Inr (k, q1) \<and>
      upd_loop (Some 10) (\<lambda>r. r\<lparr>loop_next := Some 12\<rparr>) h1 = Inr k"
    using app [where h = example_store and polygon = "Some 30" and l = 10
        and x = "Some 12" and hx = hx and h' = h1 and q = q1
        and pg = "\<lparr>poly_first = None, poly_last = None, poly_next = None\<rparr>",
        THEN conjunct1] rx r1
    by (simp add: pre)
  have c1: "q1 = Some 10 \<and>
      (\<forall>a\<in>set [10, 11]. fmlookup (loops h1) a = fmlookup (loops example_store) a) \<and>
      loop_chain h1 (Some 10) [10, 11] \<and>
      (\<exists>g. load (polys h1) (Some 30) = Inr g \<and> poly_last g = Some 10)"
    using app [where h = example_store and polygon = "Some 30" and l = 10 and rest = "[11]"
        and h' = h1 and q = q1
        and pg = "\<lparr>poly_first = None, poly_last = None, poly_next = None\<rparr>",
        THEN conjunct2, THEN conjunct1] r1
    by (simp add: pre)
  have c2: "\<exists>k g. addLinkedLoop example_store (Some 30) (Some 10) = Inr (k, Some 10) \<and>
      load (polys k) (Some 30) = Inr g \<and> loop_chain k (poly_first g) ([] @ [10, 11]) \<and>
      poly_last g = Some 10 \<and> ([11] \<noteq> [] \<longrightarrow> poly_last g \<noteq> Some (last [10, 11]))"
    using app [where h = example_store and polygon = "Some 30" and l = 10 and rest = "[11]"
        and ls = "[]"
        and pg = "\<lparr>poly_first = None, poly_last = None, poly_next = None\<rparr>",
        THEN conjunct2, THEN conjunct2]
    by (simp add: pre)
  have c3: "\<exists>k g. addLinkedLoop example_store (Some 31) (Some 12) = Inr (k, Some 12) \<and>
      load (polys k) (Some 31) = Inr g \<and> loop_chain k (poly_first g) ([10, 11] @ [12]) \<and>
      poly_last g = Some 12 \<and> ([] \<noteq> ([] :: addr list) \<longrightarrow> poly_last g \<noteq> Some (last [12]))"
    using app [where h = example_store and polygon = "Some 31" and l = 12 and rest = "[]"
        and ls = "[10, 11]"
        and pg = "\<lparr>poly_first = Some 10, poly_last = Some 11, poly_next = None\<rparr>",
        THEN conjunct2, THEN conjunct2]
    by (simp add: pre)
  from rx r1 c0 c1 c2 c3 show ?thesis
    by simp
qed

section \<open>Destruction\<close>

lemma destroyLinkedGeoLoop_for_chain:
  "coord_chain h p cs \<Longrightarrow>
   destroyLinkedGeoLoop_for h p = Inr (h\<lparr>coords := fmdrop_set (set cs) (coords h)\<rparr>)"
proof (induction cs arbitrary: h p)
  case Nil
  then show ?case
    by (simp add: coord_chain_def destroyLinkedGeoLoop_for.simps [of h None])
next
  case (Cons a cs)
  let ?nx = "\<lambda>h :: 'a heap. \<lambda>a. map_option coord_next (fmlookup (coords h) a)"
  from Cons.prems obtain c where p: "p = Some a" and c: "fmlookup (coords h) a = Some c"
    and rest: "next_chain (?nx h) (coord_next c) cs"
    by (auto simp: coord_chain_def split: option.splits)
  from Cons.prems have notin: "a \<notin> set cs"
    unfolding coord_chain_def by (rule chain_head_notin_tail)
  define h1 where "h1 = h\<lparr>coords := fmdrop a (coords h)\<rparr>"
  from notin have "next_chain (?nx h1) (coord_next c) cs = next_chain (?nx h) (coord_next c) cs"
    by (intro chain_cong) (auto simp: h1_def)
  with rest have "coord_chain h1 (coord_next c) cs"
    by (simp add: coord_chain_def)
  then have "destroyLinkedGeoLoop_for h1 (coord_next c) =
      Inr (h1\<lparr>coords := fmdrop_set (set cs) (coords h1)\<rparr>)"
    by (rule Cons.IH)
  with p c show ?case
    by (simp add: destroyLinkedGeoLoop_for.simps [of h "Some a"] load_simps free_coord_def h1_def)
qed

lemma loop_struct_chain: "loop_struct h p ls \<Longrightarrow> loop_chain h p (map fst ls)"
  by (induction ls arbitrary: p) (auto simp: loop_chain_def split: option.splits)

lemma polygon_struct_chain: "polygon_struct h p ps \<Longrightarrow> polygon_chain h p (map fst ps)"
  by (induction ps arbitrary: p) (auto simp: polygon_chain_def split: option.splits)

lemma coord_chain_cong:
  "(\<And>a. a \<in> set cs \<Longrightarrow> fmlookup (coords h') a = fmlookup (coords h) a) \<Longrightarrow>
   coord_chain h' p cs = coord_chain h p cs"
  unfolding coord_chain_def by (rule chain_cong) simp

lemma loop_struct_cong:
  assumes "\<And>a. a \<in> set (map fst ls) \<Longrightarrow> fmlookup (loops h') a = fmlookup (loops h) a"
    and "\<And>a. a \<in> set (loop_coords ls) \<Longrightarrow> fmlookup (coords h') a = fmlookup (coords h) a"
  shows "loop_struct h' p ls = loop_struct h p ls"
  using assms
proof (induction ls arbitrary: p)
  case Nil
  then show ?case by simp
next
  case (Cons x ls)
  obtain a cs where x: "x = (a, cs)"
    by (cases x)
  from Cons.prems(1) x have a: "fmlookup (loops h') a = fmlookup (loops h) a"
    by simp
  from Cons.prems(2) x have "coord_chain h' q cs = coord_chain h q cs" for q
    by (intro coord_chain_cong) (simp add: loop_coords_def)
  moreover from Cons.prems x have "loop_struct h' q ls = loop_struct h q ls" for q
    by (intro Cons.IH) (simp_all add: loop_coords_def)
  ultimately show ?case
    using a x by (simp split: option.splits)
qed

lemma polygon_struct_cong:
  assumes "\<And>a. a \<in> set (all_polygons ps) \<Longrightarrow> fmlookup (polys h') a = fmlookup (polys h) a"
    and "\<And>a. a \<in> set (all_loops ps) \<Longrightarrow> fmlookup (loops h') a = fmlookup (loops h) a"
    and "\<And>a. a \<in> set (all_coords ps) \<Longrightarrow> fmlookup (coords h') a = fmlookup (coords h) a"
  shows "polygon_struct h' p ps = polygon_struct h p ps"
  using assms
proof (induction ps arbitrary: p)
  case Nil
  then show ?case by simp
next
  case (Cons x ps)
  obtain a ls where x: "x = (a, ls)"
    by (cases x)
  from Cons.prems(1) x have a: "fmlookup (polys h') a = fmlookup (polys h) a"
    by (simp add: all_polygons_def)
  from Cons.prems(2,3) x have "loop_struct h' q ls = loop_struct h q ls" for q
    by (intro loop_struct_cong) (simp_all add: all_loops_def all_coords_def)
  moreover from Cons.prems x have "polygon_struct h' q ps = polygon_struct h q ps" for q
    by (intro Cons.IH) (simp_all add: all_polygons_def all_loops_def all_coords_def)
  ultimately show ?case
    using a x by (simp split: option.splits)
qed

lemma destroyLinkedPolygon_loops_struct:
  assumes "loop_struct h p ls" and "distinct (loop_coords ls)"
  shows "destroyLinkedPolygon_loops h p =
     Inr (h\<lparr>coords := fmdrop_set (set (loop_coords ls)) (coords h),
            loops := fmdrop_set (set (map fst ls)) (loops h)\<rparr>)"
  using assms
proof (induction ls arbitrary: h p)
  case Nil
  then show ?case
    by (simp add: loop_coords_def destroyLinkedPolygon_loops.simps [of h None])
next
  case (Cons x ls)
  obtain a cs where x: "x = (a, cs)"
    by (cases x)
  from Cons.prems(1) x obtain lp where p: "p = Some a"
    and lp: "fmlookup (loops h) a = Some lp"
    and cs: "coord_chain h (loop_first lp) cs"
    and rest: "loop_struct h (loop_next lp) ls"
    by (auto split: option.splits)
  from Cons.prems(1) have "distinct (map fst (x # ls))"
    using chain_distinct [OF loop_struct_chain [OF Cons.prems(1), unfolded loop_chain_def]]
    by simp
  with x have notin: "a \<notin> set (map fst ls)"
    by simp
  from Cons.prems(2) x have disj: "set cs \<inter> set (loop_coords ls) = {}"
    and d: "distinct (loop_coords ls)"
    by (simp_all add: loop_coords_def)
  define h1 where "h1 = h\<lparr>coords := fmdrop_set (set cs) (coords h)\<rparr>"
  define h2 where "h2 = h1\<lparr>loops := fmdrop a (loops h1)\<rparr>"
  from lp cs have d1: "destroyLinkedGeoLoop h (Some a) = Inr h1"
    by (simp add: destroyLinkedGeoLoop_def load_simps destroyLinkedGeoLoop_for_chain h1_def)
  from lp have l1: "load (loops h1) (Some a) = Inr lp"
    and f1: "free_loop (Some a) h1 = Inr h2"
    by (simp_all add: load_simps free_loop_def h1_def h2_def)
  from notin disj have "loop_struct h2 (loop_next lp) ls = loop_struct h (loop_next lp) ls"
    by (intro loop_struct_cong) (auto simp: h1_def h2_def)
  with rest have "loop_struct h2 (loop_next lp) ls"
    by simp
  from Cons.IH [OF this d] p d1 l1 f1 x show ?case
    by (simp add: destroyLinkedPolygon_loops.simps [of h "Some a"] h1_def h2_def
        loop_coords_def Un_commute)
qed

lemma destroyLinkedPolygon_for_struct:
  assumes "polygon_struct h p ps" and "distinct (all_loops ps)" and "distinct (all_coords ps)"
  shows "destroyLinkedPolygon_for h p skip =
     Inr (h\<lparr>coords := fmdrop_set (set (all_coords ps)) (coords h),
            loops := fmdrop_set (set (all_loops ps)) (loops h),
            polys := fmdrop_set
              (set (if skip then tl (all_polygons ps) else all_polygons ps)) (polys h)\<rparr>)"
  using assms
proof (induction ps arbitrary: h p skip)
  case Nil
  then show ?case
    by (simp add: all_coords_def all_loops_def all_polygons_def
        destroyLinkedPolygon_for.simps [of h None])
next
  case (Cons x ps)
  obtain a ls where x: "x = (a, ls)"
    by (cases x)
  from Cons.prems(1) x obtain pg where p: "p = Some a"
    and pg: "fmlookup (polys h) a = Some pg"
    and ls: "loop_struct h (poly_first pg) ls"
    and rest: "polygon_struct h (poly_next pg) ps"
    by (auto split: option.splits)
  from Cons.prems(1) have "distinct (map fst (x # ps))"
    using chain_distinct [OF polygon_struct_chain [OF Cons.prems(1), unfolded polygon_chain_def]]
    by simp
  with x have notin: "a \<notin> set (all_polygons ps)"
    by (simp add: all_polygons_def)
  from Cons.prems(2) x have ldisj: "set (map fst ls) \<inter> set (all_loops ps) = {}"
    and ld: "distinct (all_loops ps)"
    by (simp_all add: all_loops_def)
  from Cons.prems(3) x have cdisj: "set (loop_coords ls) \<inter> set (all_coords ps) = {}"
    and cd: "distinct (all_coords ps)" and cl: "distinct (loop_coords ls)"
    by (simp_all add: all_coords_def)
  define h1 where "h1 = h\<lparr>coords := fmdrop_set (set (loop_coords ls)) (coords h),
    loops := fmdrop_set (set (map fst ls)) (loops h)\<rparr>"
  define h2 where "h2 = (if skip then h1 else h1\<lparr>polys := fmdrop a (polys h1)\<rparr>)"
  from ls cl have d1: "destroyLinkedPolygon_loops h (poly_first pg) = Inr h1"
    by (simp add: destroyLinkedPolygon_loops_struct h1_def)
  from pg have l1: "load (polys h1) (Some a) = Inr pg"
    by (simp add: load_simps h1_def)
  from pg have f1: "\<not> skip \<Longrightarrow> free_poly (Some a) h1 = Inr h2"
    by (simp add: free_poly_def h1_def h2_def)
  from notin ldisj cdisj
  have "polygon_struct h2 (poly_next pg) ps = polygon_struct h (poly_next pg) ps"
    by (intro polygon_struct_cong) (auto simp: h1_def h2_def)
  with rest have "polygon_struct h2 (poly_next pg) ps"
    by simp
  from Cons.IH [OF this ld cd, of False]
  have rec: "destroyLinkedPolygon_for h2 (poly_next pg) False =
     Inr (h2\<lparr>coords := fmdrop_set (set (all_coords ps)) (coords h2),
            loops := fmdrop_set (set (all_loops ps)) (loops h2),
            polys := fmdrop_set (set (all_polygons ps)) (polys h2)\<rparr>)"
    by simp
  show ?case
  proof (cases skip)
    case True
    with rec p pg d1 l1 x show ?thesis
      by (simp add: destroyLinkedPolygon_for.simps [of h "Some a"] load_simps h1_def h2_def
          all_coords_def all_loops_def all_polygons_def Un_commute)
  next
    case False
    with rec p pg d1 l1 f1 x show ?thesis
      by (simp add: destroyLinkedPolygon_for.simps [of h "Some a"] load_simps h1_def h2_def
          all_coords_def all_loops_def all_polygons_def Un_commute)
  qed
qed

lemma load_after_free:
  "free_coord (Some a) h = Inr h' \<Longrightarrow> load (coords h') (Some a) = Inl InvalidPointer"
  "free_loop (Some a) h = Inr h' \<Longrightarrow> load (loops h') (Some a) = Inl InvalidPointer"
  "free_poly (Some a) h = Inr h' \<Longrightarrow> load (polys h') (Some a) = Inl InvalidPointer"
  by (auto simp: free_coord_def free_loop_def free_poly_def load_simps split: option.splits)

text \<open>
  Claim C2. For a fully built structure (polygon chain, loop chains and coordinate chains
  that share no node), \<^verbatim>\<open>destroyLinkedPolygon\<close> returns, and the store it leaves is the
  store before the call without every coordinate node, every loop and every polygon of
  the structure but the first: the input polygon is not among the freed polygons and is
  still live with its value. That the call returns a store, and not the error
  \<open>InvalidPointer\<close>, is the second half of the claim: a read of \<^verbatim>\<open>next\<close> from a node that
  was freed is that error in the model (\<open>load_after_free\<close>), so every \<^verbatim>\<open>next\<close> is read
  before its node is freed.
\<close>

theorem destroyLinkedPolygon_releases:
  assumes "linked_geo h polygon ps"
  shows "\<exists>h'. destroyLinkedPolygon h polygon = Inr h' \<and>
     coords h' = fmdrop_set (set (all_coords ps)) (coords h) \<and>
     loops h' = fmdrop_set (set (all_loops ps)) (loops h) \<and>
     polys h' = fmdrop_set (set (tl (all_polygons ps))) (polys h) \<and>
     polygon \<notin> Some ` set (tl (all_polygons ps)) \<and>
     load (polys h') polygon = load (polys h) polygon"
proof -
  from assms have st: "polygon_struct h polygon ps"
    and dl: "distinct (all_loops ps)" and dc: "distinct (all_coords ps)"
    by (simp_all add: linked_geo_def)
  from st have "next_chain (\<lambda>a. map_option poly_next (fmlookup (polys h) a)) polygon (all_polygons ps)"
    using polygon_struct_chain [of h polygon ps] by (simp add: polygon_chain_def all_polygons_def)
  then have ch: "next_chain (\<lambda>a. map_option poly_next (fmlookup (polys h) a)) polygon
      (all_polygons ps)" .
  have kept: "polygon \<notin> Some ` set (tl (all_polygons ps))"
  proof (cases "all_polygons ps")
    case Nil
    then show ?thesis by simp
  next
    case (Cons a as)
    with ch have c: "next_chain (\<lambda>a. map_option poly_next (fmlookup (polys h) a)) polygon
        (a # as)"
      by simp
    then have "a \<notin> set as"
      by (rule chain_head_notin_tail)
    moreover from c have "polygon = Some a"
      by simp
    ultimately show ?thesis
      using Cons by auto
  qed
  then have "load (fmdrop_set (set (tl (all_polygons ps))) (polys h)) polygon =
      load (polys h) polygon"
    by (cases polygon) (auto simp: load_simps)
  from destroyLinkedPolygon_for_struct [OF st dl dc, of True] kept this show ?thesis
    by (simp add: destroyLinkedPolygon_def)
qed

theorem destroyLinkedPolygon_releases_witness:
  "\<exists>h'. destroyLinkedPolygon scenario_store (Some 40) = Inr h' \<and>
     fmlookup (coords h') 20 = None \<and> fmlookup (coords h') 21 = None \<and>
     fmlookup (coords h') 22 = None \<and> fmlookup (coords h') 23 = None \<and>
     fmlookup (loops h') 10 = None \<and> fmlookup (loops h') 11 = None \<and>
     fmlookup (polys h') 41 = None \<and>
     load (polys h') (Some 40) =
       Inr \<lparr>poly_first = Some 10, poly_last = Some 10, poly_next = Some 41\<rparr>"
proof -
  have "linked_geo scenario_store (Some 40) [(40, [(10, [20, 21, 22])]), (41, [(11, [23])])]"
    by (simp add: linked_geo_def scenario_store_def coord_chain_def all_loops_def
        all_coords_def loop_coords_def)
  from destroyLinkedPolygon_releases [OF this] show ?thesis
    by (auto simp: all_loops_def all_coords_def all_polygons_def loop_coords_def
        scenario_store_def load_simps)
qed

end
